theory Spec2Isabelle
  imports Main "HOL-Library.Word"
begin

unbundle bit_operations_syntax

section \<open>Smart car park controller: packet protocol of \<open>main.c\<close>\<close>

text \<open>
  The controller exchanges framed packets with a host over UART2, drives a servo through
  the compare register of TIM3 and shows text on an OLED display. The embedding below
  follows \<open>main.c\<close> function by function. \<open>uint8_t\<close> is \<open>8 word\<close> and
  \<open>uint32_t\<close> is \<open>32 word\<close>; where C promotes a \<open>uint8_t\<close> to \<open>int\<close>
  before arithmetic (an index sum, a comparison) the value is read with \<open>unat\<close>, so that
  the sum does not wrap, as in C.
\<close>

type_synonym byte = "8 word"
type_synonym u32 = "32 word"

subsection \<open>Constants\<close>

definition DEBOUNCE_TIME :: u32 where "DEBOUNCE_TIME = 50"
definition PACKET_START :: byte where "PACKET_START = 0xAA"
definition BUFFER_SIZE :: nat where "BUFFER_SIZE = 32"

definition EVENT_DISPLAY :: byte where "EVENT_DISPLAY = 0x01"
definition EVENT_SERVO :: byte where "EVENT_SERVO = 0x02"
definition EVENT_CAR_DETECT :: byte where "EVENT_CAR_DETECT = 0x03"
definition EVENT_LP_STATUS :: byte where "EVENT_LP_STATUS = 0x04"
definition EVENT_PARK_FULL :: byte where "EVENT_PARK_FULL = 0x05"

definition SERVO_CLOSED :: byte where "SERVO_CLOSED = 0"
definition SERVO_OPEN :: byte where "SERVO_OPEN = 90"

subsection \<open>\<open>CalculateCRC8\<close>\<close>

text \<open>
  One pass of the inner loop body: \<open>if (crc & 0x80) crc = (crc << 1) ^ 0x07; else crc = crc << 1;\<close>.
  The shift is done in \<open>int\<close> and the assignment to the \<open>uint8_t\<close> drops bit 8, which is
  what \<open>push_bit\<close> on an 8-bit word does.
\<close>

definition crc_shift :: "byte \<Rightarrow> byte" where
  "crc_shift crc = (if crc AND 0x80 \<noteq> 0 then push_bit 1 crc XOR 0x07 else push_bit 1 crc)"

text \<open>The inner loop \<open>for (j = 0; j < 8; j++)\<close>, by the number of passes left.\<close>

primrec crc_bits :: "nat \<Rightarrow> byte \<Rightarrow> byte" where
  "crc_bits 0 crc = crc"
| "crc_bits (Suc n) crc = crc_bits n (crc_shift crc)"

text \<open>The body of the outer loop for one input byte: \<open>crc ^= data[i]\<close>, then the eight shifts.\<close>

definition crc_byte :: "byte \<Rightarrow> byte \<Rightarrow> byte" where
  "crc_byte crc d = crc_bits 8 (crc XOR d)"

text \<open>
  The outer loop over \<open>data[0] .. data[length - 1]\<close>, with the running value \<open>crc\<close>.
\<close>

primrec crc_loop :: "byte \<Rightarrow> byte list \<Rightarrow> byte" where
  "crc_loop crc [] = crc"
| "crc_loop crc (d # ds) = crc_loop (crc_byte crc d) ds"

text \<open>
  \<open>CalculateCRC8(data, length)\<close>. The list \<open>data\<close> is the memory from the pointer on; the
  function reads its first \<open>length\<close> bytes. Every caller below passes a list that holds at
  least \<open>length\<close> bytes (a shorter one would be a read past the array in C, and the callers
  report that case as a fault before calling).
\<close>

definition CalculateCRC8 :: "byte list \<Rightarrow> byte \<Rightarrow> byte" where
  "CalculateCRC8 data len = crc_loop 0 (take (unat len) data)"

subsection \<open>The reference CRC-8\<close>

text \<open>
  The reference is the textbook definition of a CRC with generator
  \<open>x\<^sup>8 + x\<^sup>2 + x + 1\<close> (polynomial byte 0x07), register initialised to 0, no
  reflection and no final XOR: the message bits, most significant bit of each byte
  first, followed by eight zero bits, are shifted one at a time into the low end of an
  8-bit register, and whenever a one is shifted out at the top the generator is XORed
  into the register. The register at the end is the remainder of the message times
  \<open>x\<^sup>8\<close>.
\<close>

definition byte_bits :: "byte \<Rightarrow> bool list" where
  "byte_bits d = map (bit d) [7, 6, 5, 4, 3, 2, 1, 0]"

definition ref_shift_in :: "byte \<Rightarrow> bool \<Rightarrow> byte" where
  "ref_shift_in r b =
     (let r' = push_bit 1 r OR (if b then 1 else 0)
      in if bit r 7 then r' XOR 0x07 else r')"

definition crc8_reference :: "byte list \<Rightarrow> byte" where
  "crc8_reference msg =
     foldl ref_shift_in 0 (concat (map byte_bits msg) @ replicate 8 False)"

subsection \<open>The peripherals\<close>

text \<open>
  What the code does to the outside is recorded in \<open>world\<close>: \<open>txBuffer\<close> is the global
  array of that name, \<open>uart_tx\<close> lists the byte strings handed to
  \<open>HAL_UART_Transmit\<close> on \<open>huart2\<close>, one entry for each call, \<open>tim3_compare\<close> lists the
  values written to the compare register of TIM3 channel 1, and \<open>oled\<close> lists the strings
  drawn by \<open>OLED_Display\<close>. The return status of \<open>HAL_UART_Transmit\<close> is ignored by the
  code, so the model records the call and not its outcome.
\<close>

record world =
  txBuffer :: "byte list"
  uart_tx :: "byte list list"
  tim3_compare :: "u32 list"
  oled :: "byte list list"

subsection \<open>Memory faults\<close>

text \<open>
  The arrays of \<open>main.c\<close> have a fixed size and the code indexes them without a check.
  An access outside an array is undefined behaviour in C; the embedding makes it a value:
  a function that would write or read outside an array returns \<open>Inl\<close> of the fault and
  nothing after it is executed. \<open>WriteOverrun\<close> and \<open>ReadOverrun\<close> are an indexed store
  and an indexed read outside an array. \<open>StringOverrun w\<close> is the read of a C string
  that has no terminating NUL inside its array; it is the one fault that can come after
  the code has already acted on the outside, so it carries the world \<open>w\<close> as it is
  when the read starts.
\<close>

datatype fault = WriteOverrun | ReadOverrun | StringOverrun world

definition ascii :: "string \<Rightarrow> byte list" where
  "ascii s = map of_char s"

text \<open>The string literals \<open>"OK\n"\<close> and \<open>"ERR\n"\<close>, without the terminating NUL.\<close>

definition str_OK :: "byte list" where
  "str_OK = ascii ''OK'' @ [0x0A]"

definition str_ERR :: "byte list" where
  "str_ERR = ascii ''ERR'' @ [0x0A]"

text \<open>
  \<open>strcpy((char*)txBuffer, s)\<close>: the characters of \<open>s\<close> and the terminating NUL replace
  the first bytes of \<open>txBuffer\<close>. Both literals fit in the array.
\<close>

definition strcpy_txBuffer :: "byte list \<Rightarrow> world \<Rightarrow> world" where
  "strcpy_txBuffer s w = w\<lparr>txBuffer := s @ [0] @ drop (length s + 1) (txBuffer w)\<rparr>"

text \<open>\<open>HAL_UART_Transmit(&huart2, pData, Size, UART_TIMEOUT)\<close>.\<close>

definition HAL_UART_Transmit :: "byte list \<Rightarrow> nat \<Rightarrow> world \<Rightarrow> world" where
  "HAL_UART_Transmit pData n w = w\<lparr>uart_tx := uart_tx w @ [take n pData]\<rparr>"

text \<open>
  \<open>OLED_Display(message)\<close> hands the pointer to \<open>u8g2_DrawStr\<close>, which reads the C
  string at \<open>message\<close>: the bytes up to the first NUL. The model is given the memory from
  the pointer to the end of the array it points into. When there is no NUL in that
  memory the read runs past the end of the array, which is the fault \<open>StringOverrun\<close>;
  nothing is drawn.
\<close>

definition c_string :: "byte list \<Rightarrow> byte list" where
  "c_string mem = takeWhile (\<lambda>b. b \<noteq> 0) mem"

definition OLED_Display :: "byte list \<Rightarrow> world \<Rightarrow> fault + world" where
  "OLED_Display message w =
     (if 0 \<in> set message then Inr (w\<lparr>oled := oled w @ [c_string message]\<rparr>)
      else Inl (StringOverrun w))"

text \<open>
  \<open>SetServoAngle\<close>: the angle is limited to 180, then
  \<open>pulseWidth = 50 + (angle * 100 / 180)\<close> is computed in \<open>int\<close> (no overflow: the product
  is at most 18000) and written to the compare register.
\<close>

definition SetServoAngle :: "byte \<Rightarrow> world \<Rightarrow> world" where
  "SetServoAngle angle w =
     (let angle' = (if angle > 180 then 180 else angle);
          pulseWidth = (of_nat (50 + unat angle' * 100 div 180) :: u32)
      in w\<lparr>tim3_compare := tim3_compare w @ [pulseWidth]\<rparr>)"

subsection \<open>\<open>ProcessReceivedPacket\<close>\<close>

text \<open>
  The \<open>switch (eventId)\<close> of \<open>ProcessReceivedPacket\<close>, entered after the \<open>"OK\n"\<close>
  reply has been sent. \<open>data\<close> is the memory from \<open>&buffer[3]\<close> to the end of the
  array. \<open>EVENT_DISPLAY\<close> passes \<open>data\<close> itself to \<open>OLED_Display\<close> as a C string; a frame
  carries no terminating NUL, so the string ends at the first zero byte that happens to
  follow in the array, and the read is a fault when there is none. The two literals of
  \<open>EVENT_PARK_FULL\<close> carry their NUL. The switch has no case for \<open>EVENT_CAR_DETECT\<close>
  and no default.
\<close>

definition handle_event :: "byte \<Rightarrow> byte list \<Rightarrow> world \<Rightarrow> fault + world" where
  "handle_event eventId data w2 =
     (if eventId = EVENT_DISPLAY then OLED_Display data w2
      else if eventId = EVENT_SERVO then Inr (SetServoAngle (data ! 0) w2)
      else if eventId = EVENT_LP_STATUS then
        (if data ! 0 = 1 then Inr (SetServoAngle SERVO_OPEN w2)
         else Inr (SetServoAngle SERVO_CLOSED w2))
      else if eventId = EVENT_PARK_FULL then
        (if data ! 0 = 1 then OLED_Display (ascii ''Lot Full'' @ [0]) w2
         else OLED_Display (ascii ''Spaces Available'' @ [0]) w2)
      else Inr w2)"

text \<open>
  \<open>buffer\<close> is the array the pointer refers to (the only caller passes
  \<open>packetBuffer\<close>). \<open>buffer[2 + length]\<close> is indexed in \<open>int\<close>, so the sum does not wrap;
  when it lies outside the array the read is a fault, and so is an array too short to
  hold \<open>data[0]\<close>. On a matching checksum the reply is copied to \<open>txBuffer\<close> and
  transmitted, and only then the switch is entered.
\<close>

definition ProcessReceivedPacket :: "byte list \<Rightarrow> world \<Rightarrow> fault + world" where
  "ProcessReceivedPacket buffer w =
     (if length buffer \<le> 3 \<or> length buffer \<le> 2 + unat (buffer ! 1) then Inl ReadOverrun
      else
        let len = buffer ! 1;
            eventId = buffer ! 2;
            data = drop 3 buffer;
            receivedCRC = buffer ! (2 + unat len);
            calculatedCRC = CalculateCRC8 (drop 2 buffer) len
        in if receivedCRC = calculatedCRC then
             let w1 = strcpy_txBuffer str_OK w;
                 w2 = HAL_UART_Transmit (txBuffer w1) 3 w1
             in handle_event eventId data w2
           else
             let w1 = strcpy_txBuffer str_ERR w
             in Inr (HAL_UART_Transmit (txBuffer w1) 4 w1))"

subsection \<open>\<open>HAL_UART_RxCpltCallback\<close>: the receive state machine\<close>

text \<open>
  The four \<open>static\<close> variables of the callback. \<open>packetState\<close> is 0 while waiting for
  the start byte, 1 while waiting for the length and 2 while collecting the rest.
\<close>

record decoder =
  packetBuffer :: "byte list"
  packetIndex :: byte
  packetState :: byte
  packetLength :: byte

text \<open>The variables as the C start-up code leaves them.\<close>

definition decoder_init :: decoder where
  "decoder_init = \<lparr>packetBuffer = replicate BUFFER_SIZE 0, packetIndex = 0,
                    packetState = 0, packetLength = 0\<rparr>"

text \<open>A world in which nothing has been sent, written or drawn yet.\<close>

definition world_init :: world where
  "world_init = \<lparr>txBuffer = replicate BUFFER_SIZE 0, uart_tx = [], tim3_compare = [], oled = []\<rparr>"

datatype uart_instance = USART1 | USART2 | USART3

text \<open>
  \<open>packetBuffer[packetIndex++] = v\<close>: the store is a fault when the index is outside the
  array; the index wraps as a \<open>uint8_t\<close>.
\<close>

definition store_byte :: "byte \<Rightarrow> decoder \<Rightarrow> fault + decoder" where
  "store_byte v d =
     (if unat (packetIndex d) < length (packetBuffer d)
      then Inr (d\<lparr>packetBuffer := (packetBuffer d)[unat (packetIndex d) := v],
                  packetIndex := packetIndex d + 1\<rparr>)
      else Inl WriteOverrun)"

text \<open>
  One call of the callback with the received byte \<open>rxBuffer[0] = rx\<close>. The comparison
  \<open>packetIndex >= (packetLength + 3)\<close> is done in \<open>int\<close>. Re-arming the reception with
  \<open>HAL_UART_Receive_IT\<close> has no effect on the modelled state: the next byte is the
  argument of the next call.
\<close>

definition HAL_UART_RxCpltCallback ::
    "uart_instance \<Rightarrow> byte \<Rightarrow> decoder \<times> world \<Rightarrow> fault + decoder \<times> world" where
  "HAL_UART_RxCpltCallback inst rx dw =
     (case dw of (d, w) \<Rightarrow>
        if inst \<noteq> USART2 then Inr (d, w)
        else if packetState d = 0 then
          (if rx = PACKET_START then
             (if 0 < length (packetBuffer d)
              then Inr (d\<lparr>packetBuffer := (packetBuffer d)[0 := PACKET_START],
                          packetIndex := 1, packetState := 1\<rparr>, w)
              else Inl WriteOverrun)
           else Inr (d, w))
        else if packetState d = 1 then
          (case store_byte rx (d\<lparr>packetLength := rx\<rparr>) of
             Inl f \<Rightarrow> Inl f
           | Inr d1 \<Rightarrow> Inr (d1\<lparr>packetState := 2\<rparr>, w))
        else if packetState d = 2 then
          (case store_byte rx d of
             Inl f \<Rightarrow> Inl f
           | Inr d1 \<Rightarrow>
               if unat (packetIndex d1) \<ge> unat (packetLength d1) + 3 then
                 (case ProcessReceivedPacket (packetBuffer d1) w of
                    Inl f \<Rightarrow> Inl f
                  | Inr w1 \<Rightarrow> Inr (d1\<lparr>packetState := 0, packetIndex := 0\<rparr>, w1))
               else Inr (d1, w))
        else Inr (d, w))"

text \<open>The bytes of a stream arriving on USART2, one call of the callback for each.\<close>

fun receive_bytes :: "byte list \<Rightarrow> decoder \<times> world \<Rightarrow> fault + decoder \<times> world" where
  "receive_bytes [] dw = Inr dw"
| "receive_bytes (b # bs) dw =
     (case HAL_UART_RxCpltCallback USART2 b dw of
        Inl f \<Rightarrow> Inl f
      | Inr dw' \<Rightarrow> receive_bytes bs dw')"

subsection \<open>\<open>SendPacket\<close>\<close>

text \<open>
  The copy loop \<open>for (i = 0; i < dataLength; i++) packet[index++] = data[i]\<close>. The list
  \<open>packet\<close> holds the bytes written so far, so its length is \<open>index\<close>; the first
  argument counts the passes left. Reading past \<open>data\<close> or writing past the
  \<open>BUFFER_SIZE\<close> bytes of \<open>packet\<close> is a fault.
\<close>

fun copy_data :: "nat \<Rightarrow> byte list \<Rightarrow> byte list \<Rightarrow> fault + byte list" where
  "copy_data 0 packet data = Inr packet"
| "copy_data (Suc n) packet [] = Inl ReadOverrun"
| "copy_data (Suc n) packet (x # xs) =
     (if BUFFER_SIZE \<le> length packet then Inl WriteOverrun
      else copy_data n (packet @ [x]) xs)"

text \<open>
  \<open>SendPacket(eventId, data, dataLength)\<close>. The result is the byte string handed to
  \<open>HAL_UART_Transmit\<close>: \<open>packet[0] .. packet[index]\<close>. The length byte and the second
  argument of \<open>CalculateCRC8\<close> are \<open>dataLength + 1\<close> converted to \<open>uint8_t\<close>.
\<close>

definition SendPacket :: "byte \<Rightarrow> byte list \<Rightarrow> byte \<Rightarrow> fault + byte list" where
  "SendPacket eventId data dataLength =
     (case copy_data (unat dataLength) [PACKET_START, dataLength + 1, eventId] data of
        Inl f \<Rightarrow> Inl f
      | Inr packet \<Rightarrow>
          if BUFFER_SIZE \<le> length packet then Inl WriteOverrun
          else Inr (packet @ [CalculateCRC8 (drop 2 packet) (dataLength + 1)]))"

subsection \<open>The main loop: debounce and periodic report\<close>

text \<open>
  The four globals of the presence monitor, and what one pass of the loop reads from
  outside: the sensor pin, and the tick counter at each of the four calls of
  \<open>HAL_GetTick\<close>, in the order of the source: the value stored in \<open>lastDebounceTime\<close>
  when the reading has changed, the value of the debounce test, the value of the
  one-second test and the value stored in \<open>lastDetectionSendTime\<close> after a periodic
  report. The tick interrupt may fall between any two of them.
\<close>

record presence =
  carDetected :: byte
  lastCarDetected :: byte
  lastDebounceTime :: u32
  lastDetectionSendTime :: u32

record sample =
  sensor :: byte
  tick_stamp :: u32
  tick_check :: u32
  tick_beat :: u32
  tick_sent :: u32

text \<open>A pass that reads \<open>v\<close> from the pin while the tick counter stands at \<open>n\<close>.\<close>

definition at_tick :: "byte \<Rightarrow> u32 \<Rightarrow> sample" where
  "at_tick v n = \<lparr>sensor = v, tick_stamp = n, tick_check = n, tick_beat = n, tick_sent = n\<rparr>"

definition presence_init :: presence where
  "presence_init = \<lparr>carDetected = 0, lastCarDetected = 0, lastDebounceTime = 0,
                     lastDetectionSendTime = 0\<rparr>"

text \<open>
  The loop calls \<open>SendPacket\<close> at two places with the same arguments. The packets a pass
  sends are returned in order, each with the place that sent it: \<open>ChangeReport\<close> for the
  call inside the debounce branch, \<open>PeriodicReport\<close> for the call of the one-second
  timer.
\<close>

datatype report = ChangeReport | PeriodicReport

definition send_report :: "report \<Rightarrow> byte \<Rightarrow> fault + (report \<times> byte list) list" where
  "send_report r v =
     (case SendPacket EVENT_CAR_DETECT [v] 1 of
        Inl f \<Rightarrow> Inl f
      | Inr packet \<Rightarrow> Inr [(r, packet)])"

definition main_loop_pass ::
    "sample \<Rightarrow> presence \<Rightarrow> fault + (report \<times> byte list) list \<times> presence" where
  "main_loop_pass t s =
     (let currentSensorState = sensor t;
          s1 = (if currentSensorState \<noteq> lastCarDetected s
                then s\<lparr>lastDebounceTime := tick_stamp t\<rparr> else s);
          fire = (tick_check t - lastDebounceTime s1 > DEBOUNCE_TIME
                  \<and> carDetected s1 \<noteq> currentSensorState);
          s2 = (if fire then s1\<lparr>carDetected := currentSensorState\<rparr> else s1);
          out1 = (if fire then send_report ChangeReport (carDetected s2) else Inr []);
          s3 = s2\<lparr>lastCarDetected := currentSensorState\<rparr>;
          beat = (tick_beat t - lastDetectionSendTime s3 > 1000);
          out2 = (if beat then send_report PeriodicReport (carDetected s3) else Inr []);
          s4 = (if beat then s3\<lparr>lastDetectionSendTime := tick_sent t\<rparr> else s3)
      in case out1 of
           Inl f \<Rightarrow> Inl f
         | Inr o1 \<Rightarrow>
             (case out2 of
                Inl f \<Rightarrow> Inl f
              | Inr o2 \<Rightarrow> Inr (o1 @ o2, s4)))"

text \<open>The passes of the loop over a list of samples, collecting what was sent.\<close>

fun main_loop :: "sample list \<Rightarrow> presence \<Rightarrow> fault + (report \<times> byte list) list \<times> presence" where
  "main_loop [] s = Inr ([], s)"
| "main_loop (t # ts) s =
     (case main_loop_pass t s of
        Inl f \<Rightarrow> Inl f
      | Inr (o1, s1) \<Rightarrow>
          (case main_loop ts s1 of
             Inl f \<Rightarrow> Inl f
           | Inr (o2, s2) \<Rightarrow> Inr (o1 @ o2, s2)))"

definition change_reports :: "(report \<times> byte list) list \<Rightarrow> byte list list" where
  "change_reports out = map snd (filter (\<lambda>e. fst e = ChangeReport) out)"

subsection \<open>Notions used in the statements\<close>

text \<open>
  The frame that \<open>ProcessReceivedPacket\<close> reads lies inside the array: the index of the
  checksum byte, \<open>2 + length\<close>, and the index of \<open>data[0]\<close> are in range.
\<close>

definition frame_in_buffer :: "byte list \<Rightarrow> bool" where
  "frame_in_buffer buffer = (3 < length buffer \<and> 2 + unat (buffer ! 1) < length buffer)"

text \<open>The test \<open>receivedCRC == calculatedCRC\<close> of \<open>ProcessReceivedPacket\<close>.\<close>

definition checksum_ok :: "byte list \<Rightarrow> bool" where
  "checksum_ok buffer =
     (buffer ! (2 + unat (buffer ! 1)) = CalculateCRC8 (drop 2 buffer) (buffer ! 1))"

text \<open>
  The two statements that send a reply: \<open>strcpy\<close> of the literal into \<open>txBuffer\<close>, then
  \<open>HAL_UART_Transmit\<close> of as many bytes as the literal has characters.
\<close>

definition reply :: "byte list \<Rightarrow> world \<Rightarrow> world" where
  "reply s w = (let w1 = strcpy_txBuffer s w in HAL_UART_Transmit (txBuffer w1) (length s) w1)"

text \<open>
  A sequence of passes in which the sensor reading is never seen unchanged for more
  than \<open>d\<close> ticks: in every pass the reading either differs from the one before it (a
  toggle, time-stamped in that pass) or is the same, and in both cases the debounce test
  of the pass is made at most \<open>d\<close> ticks after the time stamp of the latest toggle. A
  reading that toggles at intervals shorter than \<open>d\<close> is such a sequence, and so is one
  held for exactly \<open>d\<close> ticks. \<open>prev\<close> is the reading before the first pass and
  \<open>since\<close> the time stamp of the latest toggle before it. Times are \<open>uint32_t\<close> ticks
  and the difference wraps, as \<open>HAL_GetTick() - lastDebounceTime\<close> does.
\<close>

fun toggles_within :: "u32 \<Rightarrow> byte \<Rightarrow> u32 \<Rightarrow> sample list \<Rightarrow> bool" where
  "toggles_within d prev since [] = True"
| "toggles_within d prev since (t # ts) =
     (if sensor t \<noteq> prev
      then tick_check t - tick_stamp t \<le> d \<and> toggles_within d (sensor t) (tick_stamp t) ts
      else tick_check t - since \<le> d \<and> toggles_within d prev since ts)"

text \<open>The packet that \<open>SendPacket(EVENT_CAR_DETECT, &carDetected, 1)\<close> sends for the value \<open>v\<close>.\<close>

definition car_detect_packet :: "byte \<Rightarrow> byte list" where
  "car_detect_packet v =
     [PACKET_START, 2, EVENT_CAR_DETECT, v, crc_loop 0 [EVENT_CAR_DETECT, v]]"

section \<open>The checksum\<close>

subsection \<open>The shift of the inner loop is linear over XOR\<close>

lemma msb_test: "(crc AND 0x80 \<noteq> 0) = bit (crc::byte) 7"
proof -
  have "(0x80::byte) = 2 ^ 7" by simp
  then show ?thesis by (simp only: and_exp_eq_0_iff_not_bit) simp
qed

lemma crc_shift_alt: "crc_shift r = push_bit 1 r XOR (if bit r 7 then 0x07 else 0)"
  by (simp add: crc_shift_def msb_test)

lemma crc_shift_xor: "crc_shift (a XOR b) = crc_shift a XOR crc_shift b"
  by (cases "bit a 7"; cases "bit b 7")
     (simp_all add: crc_shift_alt bit_xor_iff xor.assoc xor.commute xor.left_commute)

lemma crc_bits_xor: "crc_bits n (a XOR b) = crc_bits n a XOR crc_bits n b"
  by (induction n arbitrary: a b) (simp_all add: crc_shift_xor)

lemma crc_shift_0: "crc_shift 0 = 0"
  by (simp add: crc_shift_def)

lemma crc_bits_0: "crc_bits k 0 = 0"
  by (induction k) (simp_all add: crc_shift_0)

lemma crc_shift_single: "j < 7 \<Longrightarrow> crc_shift (2 ^ j) = 2 ^ Suc j"
  by (simp add: crc_shift_alt bit_simps)

lemma crc_bits_single: "j + k < 8 \<Longrightarrow> crc_bits k (2 ^ j) = 2 ^ (j + k)"
proof (induction k arbitrary: j)
  case 0
  then show ?case by simp
next
  case (Suc k)
  from Suc.prems have "crc_shift (2 ^ j) = 2 ^ Suc j"
    by (intro crc_shift_single) simp
  moreover from Suc.prems have "crc_bits k (2 ^ Suc j) = 2 ^ (Suc j + k)"
    by (intro Suc.IH) simp
  ultimately show ?case by simp
qed

lemma crc_bits_of_bool: "k < 8 \<Longrightarrow> crc_bits k (of_bool b) = push_bit k (of_bool b)"
  using crc_bits_single [of 0 k] by (cases b) (simp_all add: crc_bits_0)

subsection \<open>The bit-serial register against the byte-wise loop\<close>

lemma ref_shift_in_alt: "ref_shift_in r b = crc_shift r XOR of_bool b"
proof -
  have "push_bit 1 r AND 1 = 0"
    by (simp add: and_one_eq even_iff_mod_2_eq_zero [symmetric])
  then have "push_bit 1 r OR 1 = push_bit 1 r XOR 1"
    by (simp only: disjunctive_xor_eq_or)
  then show ?thesis
    by (simp add: ref_shift_in_def crc_shift_alt xor.assoc xor.commute xor.left_commute)
qed

lemma take_bit_step:
  "push_bit k (of_bool (bit d k)) XOR take_bit k d = take_bit (Suc k) (d::byte)"
  by (rule bit_eqI) (auto simp add: bit_simps less_Suc_eq)

text \<open>
  Shifting the \<open>k\<close> low bits of \<open>d\<close> into the register, highest first, is \<open>k\<close> plain
  shifts of the register with those bits of \<open>d\<close> XORed onto the result.
\<close>

lemma ref_feed_bits:
  "k \<le> 8 \<Longrightarrow>
     foldl ref_shift_in r (map (bit d) (rev [0..<k])) = crc_bits k r XOR take_bit k d"
proof (induction k arbitrary: r)
  case 0
  then show ?case by simp
next
  case (Suc k)
  then have k: "k < 8" by simp
  have "foldl ref_shift_in r (map (bit d) (rev [0..<Suc k]))
      = foldl ref_shift_in (crc_shift r XOR of_bool (bit d k)) (map (bit d) (rev [0..<k]))"
    by (simp add: ref_shift_in_alt)
  also have "\<dots> = crc_bits k (crc_shift r XOR of_bool (bit d k)) XOR take_bit k d"
    using k by (intro Suc.IH) simp
  also have "\<dots> = crc_bits (Suc k) r XOR (push_bit k (of_bool (bit d k)) XOR take_bit k d)"
    using k by (simp only: crc_bits_xor crc_bits_of_bool crc_bits.simps xor.assoc)
  finally show ?case by (simp only: take_bit_step)
qed

lemma byte_bits_upt: "byte_bits d = map (bit d) (rev [0..<8])"
  by (simp add: byte_bits_def eval_nat_numeral)

lemma ref_feed_byte: "foldl ref_shift_in r (byte_bits d) = crc_bits 8 r XOR d"
  using ref_feed_bits [of 8 r d]
  by (simp only: byte_bits_upt) (simp add: take_bit_word_eq_self)

lemma ref_feed_zeros: "foldl ref_shift_in r (replicate k False) = crc_bits k r"
  by (induction k arbitrary: r) (simp_all add: ref_shift_in_alt)

text \<open>
  The byte-wise loop runs eight shifts ahead of the bit-serial register: its value is the
  register after the eight zero bits that the reference appends.
\<close>

lemma ref_feed_msg:
  "crc_bits 8 (foldl ref_shift_in r (concat (map byte_bits msg))) = crc_loop (crc_bits 8 r) msg"
  by (induction msg arbitrary: r)
     (simp_all add: ref_feed_byte crc_byte_def del: crc_bits.simps)

lemma crc_loop_reference: "crc_loop 0 msg = crc8_reference msg"
  using ref_feed_msg [of 0 msg]
  by (simp add: crc8_reference_def ref_feed_zeros crc_bits_0 del: crc_bits.simps)

lemma crc_loop_append: "crc_loop crc (b1 @ b2) = crc_loop (crc_loop crc b1) b2"
  by (induction b1 arbitrary: crc) simp_all

lemma unat_byte_of_nat: "n < 256 \<Longrightarrow> unat (of_nat n :: byte) = n"
  by (simp add: unat_of_nat)

lemma CalculateCRC8_whole:
  "length data < 256 \<Longrightarrow> CalculateCRC8 data (of_nat (length data)) = crc_loop 0 data"
  by (simp add: CalculateCRC8_def unat_byte_of_nat)

text \<open>The check value of the CRC-8 catalogue for the ASCII digits \<open>123456789\<close>.\<close>

lemma CalculateCRC8_check_value:
  "CalculateCRC8 [0x31, 0x32, 0x33, 0x34, 0x35, 0x36, 0x37, 0x38, 0x39] 9 = 0xF4"
  by code_simp

text \<open>
  Claim C4. \<open>CalculateCRC8\<close> is a function of its input bytes alone: for every call
  it returns the reference CRC-8 (polynomial 0x07, initial value 0, most significant bit
  first, no reflection) of the \<open>length\<close> bytes it reads. For byte sequences \<open>b1\<close> and
  \<open>b2\<close> that it can be given together (the length is a \<open>uint8_t\<close>, so at most 255
  bytes), running its loop over \<open>b2\<close> from the checksum of \<open>b1\<close> as running value gives
  the checksum of \<open>b1 @ b2\<close>.
\<close>

theorem CalculateCRC8_reference_incremental:
  assumes "length b1 + length b2 < 256"
  shows "CalculateCRC8 data len = crc8_reference (take (unat len) data)
       \<and> CalculateCRC8 (b1 @ b2) (of_nat (length (b1 @ b2))) = crc8_reference (b1 @ b2)
       \<and> crc_loop (CalculateCRC8 b1 (of_nat (length b1))) b2
           = CalculateCRC8 (b1 @ b2) (of_nat (length (b1 @ b2)))"
proof -
  have prefix: "CalculateCRC8 data len = crc8_reference (take (unat len) data)"
    by (simp add: CalculateCRC8_def crc_loop_reference)
  from assms have l: "length (b1 @ b2) < 256" and l1: "length b1 < 256" by simp_all
  have whole: "CalculateCRC8 (b1 @ b2) (of_nat (length (b1 @ b2))) = crc_loop 0 (b1 @ b2)"
    using l by (rule CalculateCRC8_whole)
  have first: "CalculateCRC8 b1 (of_nat (length b1)) = crc_loop 0 b1"
    using l1 by (rule CalculateCRC8_whole)
  show ?thesis
    by (simp only: prefix) (simp only: whole first crc_loop_reference [symmetric] crc_loop_append)
qed

theorem CalculateCRC8_reference_incremental_witness:
  "length [0x31, 0x32, 0x33, 0x34 :: byte] + length [0x35, 0x36, 0x37, 0x38, 0x39 :: byte] < 256
   \<and> CalculateCRC8 [0x31, 0x32, 0x33, 0x34, 0x35, 0x36, 0x37, 0x38, 0x39] 9
       = crc8_reference [0x31, 0x32, 0x33, 0x34, 0x35, 0x36, 0x37, 0x38, 0x39]
   \<and> crc_loop (CalculateCRC8 [0x31, 0x32, 0x33, 0x34] 4) [0x35, 0x36, 0x37, 0x38, 0x39]
       = CalculateCRC8 [0x31, 0x32, 0x33, 0x34, 0x35, 0x36, 0x37, 0x38, 0x39] 9"
proof -
  let ?b1 = "[0x31, 0x32, 0x33, 0x34 :: byte]"
  let ?b2 = "[0x35, 0x36, 0x37, 0x38, 0x39 :: byte]"
  have h: "length ?b1 + length ?b2 < 256" by simp
  from CalculateCRC8_reference_incremental [OF h, of ?b1 4]
  have "CalculateCRC8 (?b1 @ ?b2) (of_nat (length (?b1 @ ?b2))) = crc8_reference (?b1 @ ?b2)
      \<and> crc_loop (CalculateCRC8 ?b1 (of_nat (length ?b1))) ?b2
          = CalculateCRC8 (?b1 @ ?b2) (of_nat (length (?b1 @ ?b2)))"
    by blast
  then show ?thesis using h by simp
qed

section \<open>The dispatcher\<close>

lemma str_OK_bytes: "str_OK = [0x4F, 0x4B, 0x0A]"
  by (simp add: str_OK_def ascii_def)

lemma str_ERR_bytes: "str_ERR = [0x45, 0x52, 0x52, 0x0A]"
  by (simp add: str_ERR_def ascii_def)

lemma len_OK: "length str_OK = 3"
  by (simp add: str_OK_bytes)

lemma len_ERR: "length str_ERR = 4"
  by (simp add: str_ERR_bytes)

lemma reply_effect:
  "uart_tx (reply s w) = uart_tx w @ [s]"
  "tim3_compare (reply s w) = tim3_compare w"
  "oled (reply s w) = oled w"
  by (simp_all add: reply_def strcpy_txBuffer_def HAL_UART_Transmit_def Let_def)

lemma SetServoAngle_effect:
  "uart_tx (SetServoAngle a w) = uart_tx w"
  "oled (SetServoAngle a w) = oled w"
  "tim3_compare (SetServoAngle a w)
     = tim3_compare w @ [of_nat (50 + min (unat a) 180 * 100 div 180)]"
  by (auto simp add: SetServoAngle_def Let_def word_less_nat_alt min_def)

lemma OLED_Display_terminated:
  "0 \<in> set m \<Longrightarrow> OLED_Display m w = Inr (w\<lparr>oled := oled w @ [c_string m]\<rparr>)"
  by (simp add: OLED_Display_def)

lemma OLED_Display_unterminated:
  "0 \<notin> set m \<Longrightarrow> OLED_Display m w = Inl (StringOverrun w)"
  by (simp add: OLED_Display_def)

lemma OLED_Display_Inr:
  "OLED_Display m w = Inr w' \<Longrightarrow>
   uart_tx w' = uart_tx w \<and> tim3_compare w' = tim3_compare w
   \<and> oled w' = oled w @ [c_string m]"
  by (auto simp add: OLED_Display_def split: if_splits)

text \<open>The switch transmits nothing, and it returns unless a frame's text has no NUL.\<close>

lemma handle_event_tx:
  "handle_event e data w2 = Inr w' \<Longrightarrow> uart_tx w' = uart_tx w2"
  by (auto simp add: handle_event_def SetServoAngle_effect dest: OLED_Display_Inr
        split: if_splits)

lemma handle_event_returns:
  "e \<noteq> EVENT_DISPLAY \<or> 0 \<in> set data \<Longrightarrow> \<exists>w'. handle_event e data w2 = Inr w'"
  by (auto simp add: handle_event_def OLED_Display_def)

lemma handle_event_overrun:
  "0 \<notin> set data \<Longrightarrow> handle_event EVENT_DISPLAY data w2 = Inl (StringOverrun w2)"
  by (simp add: handle_event_def OLED_Display_def)

lemma ProcessReceivedPacket_invalid:
  "frame_in_buffer buffer \<Longrightarrow> \<not> checksum_ok buffer \<Longrightarrow>
   ProcessReceivedPacket buffer w = Inr (reply str_ERR w)"
  by (simp add: ProcessReceivedPacket_def frame_in_buffer_def checksum_ok_def Let_def
        reply_def len_ERR)

lemma ProcessReceivedPacket_valid:
  "frame_in_buffer buffer \<Longrightarrow> checksum_ok buffer \<Longrightarrow>
   ProcessReceivedPacket buffer w
     = handle_event (buffer ! 2) (drop 3 buffer) (reply str_OK w)"
  by (simp add: ProcessReceivedPacket_def frame_in_buffer_def checksum_ok_def Let_def
        reply_def len_OK)

lemma valid_frame_OK:
  "frame_in_buffer buffer \<Longrightarrow> checksum_ok buffer \<Longrightarrow>
   ProcessReceivedPacket buffer w = Inr w' \<Longrightarrow> uart_tx w' = uart_tx w @ [str_OK]"
  by (simp add: ProcessReceivedPacket_valid handle_event_tx reply_effect)

lemma valid_frame_overrun:
  "frame_in_buffer buffer \<Longrightarrow> checksum_ok buffer \<Longrightarrow>
   buffer ! 2 = EVENT_DISPLAY \<Longrightarrow> 0 \<notin> set (drop 3 buffer) \<Longrightarrow>
   ProcessReceivedPacket buffer w = Inl (StringOverrun (reply str_OK w))"
  by (simp add: ProcessReceivedPacket_valid handle_event_overrun)

lemma valid_frame_returns:
  "frame_in_buffer buffer \<Longrightarrow> checksum_ok buffer \<Longrightarrow>
   buffer ! 2 \<noteq> EVENT_DISPLAY \<or> 0 \<in> set (drop 3 buffer) \<Longrightarrow>
   \<exists>w'. ProcessReceivedPacket buffer w = Inr w'"
  by (simp add: ProcessReceivedPacket_valid handle_event_returns)

text \<open>
  Claim C5. For a completely assembled frame (one that lies inside the packet buffer):
  when the checksum test fails the dispatcher returns, the one byte string it has handed
  to the UART is \<open>"ERR\n"\<close>, and nothing is written to the compare register of the servo
  timer or to the display. When the test succeeds, the one byte string handed to the
  UART by the end of the dispatcher's run is \<open>"OK\n"\<close>, whichever way the run ends: by
  return, or, for an \<open>EVENT_DISPLAY\<close> frame with no zero byte from \<open>buffer[3]\<close> to the
  end of the buffer, by the read of the unterminated display text, which starts after
  the reply has gone out and before anything is written.
\<close>

theorem dispatcher_reply:
  assumes "frame_in_buffer buffer"
  shows "if checksum_ok buffer
         then (case ProcessReceivedPacket buffer w of
                 Inr w' \<Rightarrow> uart_tx w' = uart_tx w @ [str_OK]
               | Inl f \<Rightarrow>
                   (\<exists>w2. f = StringOverrun w2 \<and> uart_tx w2 = uart_tx w @ [str_OK]
                        \<and> tim3_compare w2 = tim3_compare w \<and> oled w2 = oled w)
                   \<and> buffer ! 2 = EVENT_DISPLAY \<and> 0 \<notin> set (drop 3 buffer))
         else (\<exists>w'. ProcessReceivedPacket buffer w = Inr w'
                  \<and> uart_tx w' = uart_tx w @ [str_ERR]
                  \<and> tim3_compare w' = tim3_compare w \<and> oled w' = oled w)"
proof (cases "checksum_ok buffer")
  case True
  have "case ProcessReceivedPacket buffer w of
                 Inr w' \<Rightarrow> uart_tx w' = uart_tx w @ [str_OK]
               | Inl f \<Rightarrow>
                   (\<exists>w2. f = StringOverrun w2 \<and> uart_tx w2 = uart_tx w @ [str_OK]
                        \<and> tim3_compare w2 = tim3_compare w \<and> oled w2 = oled w)
                   \<and> buffer ! 2 = EVENT_DISPLAY \<and> 0 \<notin> set (drop 3 buffer)"
  proof (cases "buffer ! 2 = EVENT_DISPLAY \<and> 0 \<notin> set (drop 3 buffer)")
    case overrun: True
    then have "ProcessReceivedPacket buffer w = Inl (StringOverrun (reply str_OK w))"
      using valid_frame_overrun [OF assms True] by blast
    with overrun show ?thesis by (simp add: reply_effect)
  next
    case False
    then have "buffer ! 2 \<noteq> EVENT_DISPLAY \<or> 0 \<in> set (drop 3 buffer)" by blast
    from valid_frame_returns [OF assms True this, of w] obtain w'
      where w': "ProcessReceivedPacket buffer w = Inr w'" by blast
    with valid_frame_OK [OF assms True w'] show ?thesis by simp
  qed
  with True show ?thesis by simp
next
  case False
  with assms show ?thesis
    by (simp add: ProcessReceivedPacket_invalid reply_effect)
qed

theorem dispatcher_reply_witness:
  "frame_in_buffer ([0xAA, 2, 3, 1, 0x38] @ replicate 27 0)
   \<and> checksum_ok ([0xAA, 2, 3, 1, 0x38] @ replicate 27 0)
   \<and> (\<exists>w'. ProcessReceivedPacket ([0xAA, 2, 3, 1, 0x38] @ replicate 27 0) world_init = Inr w'
           \<and> uart_tx w' = [str_OK])
   \<and> frame_in_buffer ([0xAA, 2, 3, 1, 0x39] @ replicate 27 0)
   \<and> \<not> checksum_ok ([0xAA, 2, 3, 1, 0x39] @ replicate 27 0)
   \<and> (\<exists>w'. ProcessReceivedPacket ([0xAA, 2, 3, 1, 0x39] @ replicate 27 0) world_init = Inr w'
           \<and> uart_tx w' = [str_ERR] \<and> tim3_compare w' = [] \<and> oled w' = [])"
proof -
  let ?good = "[0xAA, 2, 3, 1, 0x38] @ replicate 27 (0::byte)"
  let ?bad = "[0xAA, 2, 3, 1, 0x39] @ replicate 27 (0::byte)"
  have a1: "frame_in_buffer ?good" by code_simp
  have a2: "checksum_ok ?good" by code_simp
  have a3: "ProcessReceivedPacket ?good world_init = Inr (reply str_OK world_init)"
    by code_simp
  have b1: "frame_in_buffer ?bad" by code_simp
  have b2: "\<not> checksum_ok ?bad" by code_simp
  have w: "uart_tx world_init = []" "tim3_compare world_init = []" "oled world_init = []"
    by (simp_all add: world_init_def)
  from dispatcher_reply [OF a1, of world_init] a2
  have "case ProcessReceivedPacket ?good world_init of
          Inr w' \<Rightarrow> uart_tx w' = uart_tx world_init @ [str_OK]
        | Inl f \<Rightarrow>
            (\<exists>w2. f = StringOverrun w2 \<and> uart_tx w2 = uart_tx world_init @ [str_OK]
                 \<and> tim3_compare w2 = tim3_compare world_init \<and> oled w2 = oled world_init)
            \<and> ?good ! 2 = EVENT_DISPLAY \<and> 0 \<notin> set (drop 3 ?good)"
    by (simp only: if_True)
  then have "uart_tx (reply str_OK world_init) = uart_tx world_init @ [str_OK]"
    by (simp only: a3 sum.case)
  with a3 have good: "\<exists>w'. ProcessReceivedPacket ?good world_init = Inr w'
                        \<and> uart_tx w' = [str_OK]"
    by (simp only: w append_Nil) blast
  from dispatcher_reply [OF b1, of world_init] b2
  have "\<exists>w'. ProcessReceivedPacket ?bad world_init = Inr w'
           \<and> uart_tx w' = uart_tx world_init @ [str_ERR]
           \<and> tim3_compare w' = tim3_compare world_init \<and> oled w' = oled world_init"
    by (simp only: if_False)
  then have bad: "\<exists>w'. ProcessReceivedPacket ?bad world_init = Inr w'
           \<and> uart_tx w' = [str_ERR] \<and> tim3_compare w' = [] \<and> oled w' = []"
    by (simp only: w append_Nil)
  from a1 a2 good b1 b2 bad show ?thesis by blast
qed

text \<open>
  The frame of \<open>EVENT_DISPLAY\<close> with the 28 payload bytes 0x41 to 0x5C fills the
  packet buffer and has no zero byte after the event id. Arriving in the power-on state it is
  acknowledged, and then the display text is read past the end of \<open>packetBuffer\<close>.
\<close>

lemma display_text_unterminated:
  "receive_bytes
     [0xAA, 0x1D, 0x01, 0x41, 0x42, 0x43, 0x44, 0x45, 0x46, 0x47, 0x48, 0x49, 0x4A, 0x4B,
      0x4C, 0x4D, 0x4E, 0x4F, 0x50, 0x51, 0x52, 0x53, 0x54, 0x55, 0x56, 0x57, 0x58, 0x59,
      0x5A, 0x5B, 0x5C, 0x48]
     (decoder_init, world_init)
     = Inl (StringOverrun (reply str_OK world_init))"
  by code_simp

text \<open>
  Claim C7. For a frame with a valid checksum and event id \<open>EVENT_SERVO\<close>, whatever the
  payload byte \<open>buffer[3]\<close> is, the dispatcher replies \<open>"OK\n"\<close> (never \<open>"ERR\n"\<close>) and
  makes one write to the compare register: the pulse width \<open>50 + angle * 100 / 180\<close> of
  the payload byte limited to 180. A payload of 200 is forwarded as 180.
\<close>

theorem servo_angle_clamped:
  assumes "frame_in_buffer buffer" and "checksum_ok buffer" and "buffer ! 2 = EVENT_SERVO"
  shows "\<exists>w'. ProcessReceivedPacket buffer w = Inr w'
           \<and> uart_tx w' = uart_tx w @ [str_OK]
           \<and> tim3_compare w'
                = tim3_compare w @ [of_nat (50 + min (unat (buffer ! 3)) 180 * 100 div 180)]
           \<and> oled w' = oled w"
  using assms
  by (simp add: ProcessReceivedPacket_valid handle_event_def reply_effect
        SetServoAngle_effect EVENT_SERVO_def EVENT_DISPLAY_def frame_in_buffer_def)

theorem servo_angle_clamped_witness:
  "frame_in_buffer ([0xAA, 2, 2, 200, 0x5C] @ replicate 27 0)
   \<and> checksum_ok ([0xAA, 2, 2, 200, 0x5C] @ replicate 27 0)
   \<and> ([0xAA, 2, 2, 200, 0x5C] @ replicate 27 0) ! 2 = EVENT_SERVO
   \<and> (\<exists>w'. ProcessReceivedPacket ([0xAA, 2, 2, 200, 0x5C] @ replicate 27 0) world_init = Inr w'
           \<and> uart_tx w' = [str_OK] \<and> tim3_compare w' = [150] \<and> oled w' = [])"
proof -
  have a1: "frame_in_buffer ([0xAA, 2, 2, 200, 0x5C] @ replicate 27 0)" by code_simp
  have a2: "checksum_ok ([0xAA, 2, 2, 200, 0x5C] @ replicate 27 0)" by code_simp
  have a3: "([0xAA, 2, 2, 200, 0x5C] @ replicate 27 0) ! 2 = EVENT_SERVO" by code_simp
  have a4: "([0xAA, 2, 2, 200, 0x5C] @ replicate 27 (0::byte)) ! 3 = 200" by code_simp
  show ?thesis
    using servo_angle_clamped [OF a1 a2 a3, of world_init] a1 a2 a3
    by (simp add: world_init_def a4)
qed

text \<open>
  Claim C8. For a frame with a valid checksum whose event id is none of the five known
  ids 0x01 .. 0x05, the dispatcher replies \<open>"OK\n"\<close> and writes neither to the compare
  register nor to the display.
\<close>

theorem unknown_event_acknowledged:
  assumes "frame_in_buffer buffer" and "checksum_ok buffer"
    and "buffer ! 2 \<notin> {EVENT_DISPLAY, EVENT_SERVO, EVENT_CAR_DETECT, EVENT_LP_STATUS,
                         EVENT_PARK_FULL}"
  shows "\<exists>w'. ProcessReceivedPacket buffer w = Inr w'
           \<and> uart_tx w' = uart_tx w @ [str_OK]
           \<and> tim3_compare w' = tim3_compare w
           \<and> oled w' = oled w"
  using assms
  by (simp add: ProcessReceivedPacket_valid handle_event_def reply_effect)

theorem unknown_event_acknowledged_witness:
  "frame_in_buffer ([0xAA, 2, 9, 1, 0xBA] @ replicate 27 0)
   \<and> checksum_ok ([0xAA, 2, 9, 1, 0xBA] @ replicate 27 0)
   \<and> ([0xAA, 2, 9, 1, 0xBA] @ replicate 27 0) ! 2
        \<notin> {EVENT_DISPLAY, EVENT_SERVO, EVENT_CAR_DETECT, EVENT_LP_STATUS, EVENT_PARK_FULL}
   \<and> (\<exists>w'. ProcessReceivedPacket ([0xAA, 2, 9, 1, 0xBA] @ replicate 27 0) world_init = Inr w'
           \<and> uart_tx w' = [str_OK] \<and> tim3_compare w' = [] \<and> oled w' = [])"
proof -
  have a1: "frame_in_buffer ([0xAA, 2, 9, 1, 0xBA] @ replicate 27 0)" by code_simp
  have a2: "checksum_ok ([0xAA, 2, 9, 1, 0xBA] @ replicate 27 0)" by code_simp
  have a3: "([0xAA, 2, 9, 1, 0xBA] @ replicate 27 0) ! 2
              \<notin> {EVENT_DISPLAY, EVENT_SERVO, EVENT_CAR_DETECT, EVENT_LP_STATUS,
                  EVENT_PARK_FULL}"
    by code_simp
  show ?thesis
    using unknown_event_acknowledged [OF a1 a2 a3, of world_init] a1 a2 a3
    by (simp add: world_init_def)
qed

section \<open>The encoder\<close>

lemma unat_byte_Suc: "unat x < 255 \<Longrightarrow> unat (x + 1 :: byte) = Suc (unat x)"
  by (simp add: unat_word_ariths)

lemma copy_data_ok:
  "n \<le> length data \<Longrightarrow> length packet + n \<le> BUFFER_SIZE \<Longrightarrow>
   copy_data n packet data = Inr (packet @ take n data)"
  by (induction n packet data rule: copy_data.induct) simp_all

lemma SendPacket_ok:
  assumes "length payload + 4 \<le> BUFFER_SIZE"
  shows "SendPacket eventId payload (of_nat (length payload)) =
           Inr ([PACKET_START, of_nat (length payload) + 1, eventId] @ payload
                @ [crc_loop 0 (eventId # payload)])"
proof -
  from assms have n: "length payload < 256" "length payload \<le> 28" by (simp_all add: BUFFER_SIZE_def)
  then have u: "unat (of_nat (length payload) :: byte) = length payload"
    by (simp add: unat_byte_of_nat)
  then have u1: "unat (of_nat (length payload) + 1 :: byte) = Suc (length payload)"
    using n by (simp add: unat_byte_Suc)
  have c: "copy_data (length payload) [PACKET_START, of_nat (length payload) + 1, eventId] payload
         = Inr ([PACKET_START, of_nat (length payload) + 1, eventId] @ payload)"
    using assms by (subst copy_data_ok) simp_all
  show ?thesis
    using assms by (simp add: SendPacket_def u c CalculateCRC8_def u1)
qed

text \<open>The frame for the text \<open>Ready\<close>: \<open>AA 06 01 52 65 61 64 79 6B\<close>.\<close>

lemma SendPacket_Ready:
  "SendPacket EVENT_DISPLAY [0x52, 0x65, 0x61, 0x64, 0x79] 5
     = Inr [0xAA, 0x06, 0x01, 0x52, 0x65, 0x61, 0x64, 0x79, 0x6B]"
  by code_simp

section \<open>The receive state machine\<close>

lemma callback_idle_start:
  "packetState d = 0 \<Longrightarrow> 0 < length (packetBuffer d) \<Longrightarrow>
   HAL_UART_RxCpltCallback USART2 PACKET_START (d, w)
     = Inr (d\<lparr>packetBuffer := (packetBuffer d)[0 := PACKET_START], packetIndex := 1,
               packetState := 1\<rparr>, w)"
  by (simp add: HAL_UART_RxCpltCallback_def)

lemma callback_idle_other:
  "packetState d = 0 \<Longrightarrow> rx \<noteq> PACKET_START \<Longrightarrow>
   HAL_UART_RxCpltCallback USART2 rx (d, w) = Inr (d, w)"
  by (simp add: HAL_UART_RxCpltCallback_def)

lemma callback_length:
  "packetState d = 1 \<Longrightarrow> unat (packetIndex d) < length (packetBuffer d) \<Longrightarrow>
   HAL_UART_RxCpltCallback USART2 rx (d, w)
     = Inr (d\<lparr>packetBuffer := (packetBuffer d)[unat (packetIndex d) := rx],
               packetIndex := packetIndex d + 1, packetState := 2, packetLength := rx\<rparr>, w)"
  by (simp add: HAL_UART_RxCpltCallback_def store_byte_def)

lemma callback_data:
  "packetState d = 2 \<Longrightarrow> unat (packetIndex d) < length (packetBuffer d) \<Longrightarrow>
   HAL_UART_RxCpltCallback USART2 rx (d, w)
     = (let d1 = d\<lparr>packetBuffer := (packetBuffer d)[unat (packetIndex d) := rx],
                     packetIndex := packetIndex d + 1\<rparr>
        in if unat (packetLength d) + 3 \<le> unat (packetIndex d + 1) then
             (case ProcessReceivedPacket (packetBuffer d1) w of
                Inl f \<Rightarrow> Inl f
              | Inr w1 \<Rightarrow> Inr (d1\<lparr>packetState := 0, packetIndex := 0\<rparr>, w1))
           else Inr (d1, w))"
  by (simp add: HAL_UART_RxCpltCallback_def store_byte_def Let_def)

lemma callback_data_overrun:
  "packetState d = 2 \<Longrightarrow> length (packetBuffer d) \<le> unat (packetIndex d) \<Longrightarrow>
   HAL_UART_RxCpltCallback USART2 rx (d, w) = Inl WriteOverrun"
  by (simp add: HAL_UART_RxCpltCallback_def store_byte_def)

text \<open>
  Bytes arriving in state 2 are stored one after the other, and nothing else happens,
  as long as the index stays below \<open>packetLength + 3\<close> and inside the array.
\<close>

lemma collect_bytes:
  assumes "packetState d = 2"
    and "unat (packetIndex d) + length bs \<le> length (packetBuffer d)"
    and "unat (packetIndex d) + length bs < unat (packetLength d) + 3"
    and "length (packetBuffer d) < 256"
  shows "\<exists>d'. receive_bytes bs (d, w) = Inr (d', w)
           \<and> packetState d' = 2 \<and> packetLength d' = packetLength d
           \<and> unat (packetIndex d') = unat (packetIndex d) + length bs
           \<and> packetBuffer d' = take (unat (packetIndex d)) (packetBuffer d) @ bs
                 @ drop (unat (packetIndex d) + length bs) (packetBuffer d)"
  using assms
proof (induction bs arbitrary: d)
  case Nil
  then show ?case by simp
next
  case (Cons b bs)
  let ?i = "unat (packetIndex d)"
  let ?d1 = "d\<lparr>packetBuffer := (packetBuffer d)[?i := b], packetIndex := packetIndex d + 1\<rparr>"
  from Cons.prems have i: "?i < length (packetBuffer d)" "?i < 255" by simp_all
  then have i1: "unat (packetIndex d + 1) = Suc ?i" by (simp add: unat_byte_Suc)
  have step: "HAL_UART_RxCpltCallback USART2 b (d, w) = Inr (?d1, w)"
    using Cons.prems i by (simp add: callback_data i1 Let_def)
  have "\<exists>d'. receive_bytes bs (?d1, w) = Inr (d', w)
           \<and> packetState d' = 2 \<and> packetLength d' = packetLength ?d1
           \<and> unat (packetIndex d') = unat (packetIndex ?d1) + length bs
           \<and> packetBuffer d' = take (unat (packetIndex ?d1)) (packetBuffer ?d1) @ bs
                 @ drop (unat (packetIndex ?d1) + length bs) (packetBuffer ?d1)"
    using Cons.prems i1 by (intro Cons.IH) simp_all
  then obtain d' where d': "receive_bytes bs (?d1, w) = Inr (d', w)"
      "packetState d' = 2" "packetLength d' = packetLength d"
      "unat (packetIndex d') = Suc ?i + length bs"
      "packetBuffer d' = take (Suc ?i) ((packetBuffer d)[?i := b]) @ bs
                 @ drop (Suc ?i + length bs) ((packetBuffer d)[?i := b])"
    by (auto simp add: i1)
  have "take (Suc ?i) ((packetBuffer d)[?i := b]) = take ?i (packetBuffer d) @ [b]"
    using i by (simp add: take_Suc_conv_app_nth)
  with d' show ?case
    by (simp add: step)
qed

lemma receive_bytes_append:
  "receive_bytes (xs @ ys) dw =
     (case receive_bytes xs dw of Inl f \<Rightarrow> Inl f | Inr dw' \<Rightarrow> receive_bytes ys dw')"
  by (induction xs arbitrary: dw) (simp_all split: sum.splits)

text \<open>
  A start byte, a length byte \<open>len\<close> and \<open>len + 1\<close> further bytes arriving in the
  idle state: the last byte, and no earlier one, hands the buffer to
  \<open>ProcessReceivedPacket\<close>, provided the \<open>len + 3\<close> bytes fit in the array.
\<close>

lemma receive_frame:
  assumes idle: "packetState d = 0" and size: "length (packetBuffer d) = BUFFER_SIZE"
    and n: "length body = Suc (unat len)" "unat len + 3 \<le> BUFFER_SIZE"
  shows "\<exists>d1. receive_bytes (PACKET_START # len # butlast body) (d, w) = Inr (d1, w)
            \<and> packetState d1 = 2"
    and "receive_bytes (PACKET_START # len # body) (d, w) =
          (case ProcessReceivedPacket ([PACKET_START, len] @ body @ drop (unat len + 3) (packetBuffer d)) w of
             Inl f \<Rightarrow> Inl f
           | Inr w' \<Rightarrow> Inr (d\<lparr>packetBuffer := [PACKET_START, len] @ body @ drop (unat len + 3) (packetBuffer d),
                 packetIndex := 0, packetState := 0, packetLength := len\<rparr>, w'))"
proof -
  let ?buf = "packetBuffer d"
  let ?d1 = "d\<lparr>packetBuffer := ?buf[0 := PACKET_START], packetIndex := 1, packetState := 1\<rparr>"
  let ?d2 = "d\<lparr>packetBuffer := ?buf[0 := PACKET_START, 1 := len], packetIndex := 2,
               packetState := 2, packetLength := len\<rparr>"
  have s1: "HAL_UART_RxCpltCallback USART2 PACKET_START (d, w) = Inr (?d1, w)"
    using idle size by (simp add: callback_idle_start BUFFER_SIZE_def)
  have s2: "HAL_UART_RxCpltCallback USART2 len (?d1, w) = Inr (?d2, w)"
    using size by (simp add: callback_length BUFFER_SIZE_def)
  obtain bs c where body: "body = bs @ [c]" and bs: "length bs = unat len"
    using n(1) by (cases body rule: rev_cases) simp_all
  have "\<exists>d'. receive_bytes bs (?d2, w) = Inr (d', w)
           \<and> packetState d' = 2 \<and> packetLength d' = packetLength ?d2
           \<and> unat (packetIndex d') = unat (packetIndex ?d2) + length bs
           \<and> packetBuffer d' = take (unat (packetIndex ?d2)) (packetBuffer ?d2) @ bs
                 @ drop (unat (packetIndex ?d2) + length bs) (packetBuffer ?d2)"
    using size n(2) bs by (intro collect_bytes) (simp_all add: BUFFER_SIZE_def)
  then obtain d3 where d3: "receive_bytes bs (?d2, w) = Inr (d3, w)"
      "packetState d3 = 2" "packetLength d3 = len"
      "unat (packetIndex d3) = 2 + unat len"
      "packetBuffer d3 = take 2 (?buf[0 := PACKET_START, 1 := len]) @ bs
                 @ drop (2 + unat len) (?buf[0 := PACKET_START, 1 := len])"
    using bs by auto
  have t2: "take 2 (?buf[0 := PACKET_START, 1 := len]) = [PACKET_START, len]"
    using size by (cases ?buf; cases "tl ?buf") (simp_all add: BUFFER_SIZE_def)
  have dr: "drop (2 + unat len) (?buf[0 := PACKET_START, 1 := len]) = drop (2 + unat len) ?buf"
    by simp
  have buf3: "packetBuffer d3 = [PACKET_START, len] @ bs @ drop (2 + unat len) ?buf"
    using d3(5) by (simp only: t2 dr)
  show "\<exists>d1. receive_bytes (PACKET_START # len # butlast body) (d, w) = Inr (d1, w)
            \<and> packetState d1 = 2"
    using d3 by (simp add: s1 s2 body)
  have lt: "2 + unat len < length ?buf"
    using size n(2) by simp
  then have dc: "drop (2 + unat len) ?buf = ?buf ! (2 + unat len) # drop (unat len + 3) ?buf"
    using Cons_nth_drop_Suc [OF lt] by (simp add: numeral_3_eq_3)
  have buf4: "(packetBuffer d3)[unat (packetIndex d3) := c]
                = [PACKET_START, len] @ body @ drop (unat len + 3) ?buf"
    using bs dc by (simp add: buf3 d3(4) body list_update_append)
  have len3: "unat (packetIndex d3) < length (packetBuffer d3)"
    using lt bs by (simp add: buf3 d3(4))
  have i255: "unat (packetIndex d3) < 255"
    using size n(2) by (simp add: d3(4) BUFFER_SIZE_def)
  have last_step: "HAL_UART_RxCpltCallback USART2 c (d3, w) =
     (case ProcessReceivedPacket ([PACKET_START, len] @ body @ drop (unat len + 3) ?buf) w of
             Inl f \<Rightarrow> Inl f
           | Inr w' \<Rightarrow> Inr (d3\<lparr>packetBuffer := [PACKET_START, len] @ body @ drop (unat len + 3) ?buf,
                 packetIndex := 0, packetState := 0\<rparr>, w'))"
    using buf4 i255
    by (simp add: callback_data [OF d3(2) len3] Let_def unat_byte_Suc d3(3,4) split: sum.splits)
  show "receive_bytes (PACKET_START # len # body) (d, w) =
          (case ProcessReceivedPacket ([PACKET_START, len] @ body @ drop (unat len + 3) (packetBuffer d)) w of
             Inl f \<Rightarrow> Inl f
           | Inr w' \<Rightarrow> Inr (d\<lparr>packetBuffer := [PACKET_START, len] @ body @ drop (unat len + 3) (packetBuffer d),
                 packetIndex := 0, packetState := 0, packetLength := len\<rparr>, w'))"
  proof (cases "ProcessReceivedPacket ([PACKET_START, len] @ body @ drop (unat len + 3) ?buf) w")
    case (Inl f)
    then show ?thesis
      using d3(1) by (simp add: s1 s2 body receive_bytes_append last_step)
  next
    case (Inr w')
    have "d3\<lparr>packetBuffer := [PACKET_START, len] @ body @ drop (unat len + 3) ?buf,
                 packetIndex := 0, packetState := 0\<rparr>
        = d\<lparr>packetBuffer := [PACKET_START, len] @ body @ drop (unat len + 3) ?buf,
                 packetIndex := 0, packetState := 0, packetLength := len\<rparr>"
      by (rule decoder.equality) (simp_all add: d3(3))
    with Inr show ?thesis
      using d3(1) by (simp add: s1 s2 body receive_bytes_append last_step)
  qed
qed

text \<open>
  Claim C1. For every event id and every payload that fits the frame buffer (at most
  \<open>BUFFER_SIZE - 4\<close> = 28 bytes), \<open>SendPacket\<close> returns a packet, and feeding that
  packet byte by byte to the callback, starting in the idle state, hands exactly one
  frame to the dispatcher: before the last byte nothing is sent and the machine is in
  state 2; the last byte calls \<open>ProcessReceivedPacket\<close> on the buffer \<open>buf\<close>, which is
  the packet followed by what the buffer held before. That buffer holds the length
  \<open>payload + 1\<close>, the original event id and the original payload, the checksum test of
  \<open>ProcessReceivedPacket\<close> succeeds on it, so that the \<open>"OK\n"\<close> reply is transmitted
  and the switch on the event id entered, and a dispatcher that returns has sent
  exactly \<open>"OK\n"\<close> and leaves the machine idle. The dispatcher returns for every event
  id but \<open>EVENT_DISPLAY\<close>, and for \<open>EVENT_DISPLAY\<close> when a zero byte follows the event
  id in the buffer; for a display text with no zero byte up to the end of the buffer
  the run ends, after the \<open>"OK\n"\<close> reply and before anything is drawn, in the read of
  the text past the array.
\<close>

theorem round_trip:
  assumes fits: "length payload + 4 \<le> BUFFER_SIZE"
    and idle: "packetState d = 0" and size: "length (packetBuffer d) = BUFFER_SIZE"
  shows "\<exists>packet d1 buf.
           SendPacket eventId payload (of_nat (length payload)) = Inr packet
         \<and> receive_bytes (butlast packet) (d, w) = Inr (d1, w) \<and> packetState d1 = 2
         \<and> buf = packet @ drop (length packet) (packetBuffer d)
         \<and> receive_bytes packet (d, w) =
             (case ProcessReceivedPacket buf w of
                Inl f \<Rightarrow> Inl f
              | Inr w' \<Rightarrow> Inr (d\<lparr>packetBuffer := buf, packetIndex := 0, packetState := 0,
                                 packetLength := buf ! 1\<rparr>, w'))
         \<and> frame_in_buffer buf \<and> checksum_ok buf
         \<and> unat (buf ! 1) = length payload + 1
         \<and> buf ! 2 = eventId
         \<and> take (length payload) (drop 3 buf) = payload
         \<and> (\<exists>w2. uart_tx w2 = uart_tx w @ [str_OK]
                \<and> ProcessReceivedPacket buf w = handle_event eventId (drop 3 buf) w2)
         \<and> (\<forall>w'. ProcessReceivedPacket buf w = Inr w' \<longrightarrow> uart_tx w' = uart_tx w @ [str_OK])
         \<and> (eventId \<noteq> EVENT_DISPLAY \<or> 0 \<in> set (drop 3 buf) \<longrightarrow>
               (\<exists>d' w'. receive_bytes packet (d, w) = Inr (d', w') \<and> packetState d' = 0
                      \<and> packetBuffer d' = buf \<and> uart_tx w' = uart_tx w @ [str_OK]))
         \<and> (eventId = EVENT_DISPLAY \<and> 0 \<notin> set (drop 3 buf) \<longrightarrow>
               (\<exists>w2. receive_bytes packet (d, w) = Inl (StringOverrun w2)
                    \<and> uart_tx w2 = uart_tx w @ [str_OK]
                    \<and> tim3_compare w2 = tim3_compare w \<and> oled w2 = oled w))"
proof -
  let ?len = "of_nat (length payload) + 1 :: byte"
  let ?body = "eventId # payload @ [crc_loop 0 (eventId # payload)]"
  let ?packet = "PACKET_START # ?len # ?body"
  let ?buf = "[PACKET_START, ?len] @ ?body @ drop (unat ?len + 3) (packetBuffer d)"
  from fits have n: "length payload < 255" "length payload \<le> 28"
    by (simp_all add: BUFFER_SIZE_def)
  then have u: "unat ?len = Suc (length payload)"
    by (simp add: unat_byte_Suc unat_byte_of_nat)
  have lb: "length ?body = Suc (unat ?len)" by (simp add: u)
  have l3: "unat ?len + 3 \<le> BUFFER_SIZE" using n by (simp add: u BUFFER_SIZE_def)
  have lbuf: "length ?buf = BUFFER_SIZE"
    using size l3 by (simp add: u)
  have fib: "frame_in_buffer ?buf"
    using lbuf n by (simp add: frame_in_buffer_def u BUFFER_SIZE_def del: length_append)
  have cok: "checksum_ok ?buf"
    by (simp add: checksum_ok_def CalculateCRC8_def u nth_append)
  have b1: "?buf ! 1 = ?len" by simp
  have b2: "?buf ! 2 = eventId" by simp
  from receive_frame(1) [OF idle size lb l3, of w] obtain d1
    where d1: "receive_bytes (PACKET_START # ?len # butlast ?body) (d, w) = Inr (d1, w)"
              "packetState d1 = 2"
    by blast
  have sp: "SendPacket eventId payload (of_nat (length payload)) = Inr ?packet"
    using SendPacket_ok [OF fits, of eventId] by simp
  have bl: "butlast ?packet = PACKET_START # ?len # butlast ?body"
    by simp
  have c1: "receive_bytes (butlast ?packet) (d, w) = Inr (d1, w)"
    using d1(1) by (simp only: bl)
  have c2: "?buf = ?packet @ drop (length ?packet) (packetBuffer d)"
    by (simp add: u numeral_eq_Suc)
  have c3: "receive_bytes ?packet (d, w) =
             (case ProcessReceivedPacket ?buf w of
                Inl f \<Rightarrow> Inl f
              | Inr w' \<Rightarrow> Inr (d\<lparr>packetBuffer := ?buf, packetIndex := 0, packetState := 0,
                                 packetLength := ?buf ! 1\<rparr>, w'))"
    by (simp only: receive_frame(2) [OF idle size lb l3, of w] b1)
  have c4: "unat (?buf ! 1) = length payload + 1" by (simp add: u)
  have c5: "take (length payload) (drop 3 ?buf) = payload" by simp
  have c6: "\<exists>w2. uart_tx w2 = uart_tx w @ [str_OK]
                \<and> ProcessReceivedPacket ?buf w = handle_event eventId (drop 3 ?buf) w2"
    using ProcessReceivedPacket_valid [OF fib cok, of w]
    by (intro exI [of _ "reply str_OK w"]) (simp only: b2 reply_effect simp_thms)
  have c7: "\<forall>w'. ProcessReceivedPacket ?buf w = Inr w' \<longrightarrow> uart_tx w' = uart_tx w @ [str_OK]"
    using valid_frame_OK [OF fib cok] by blast
  have c8: "eventId \<noteq> EVENT_DISPLAY \<or> 0 \<in> set (drop 3 ?buf) \<longrightarrow>
               (\<exists>d' w'. receive_bytes ?packet (d, w) = Inr (d', w') \<and> packetState d' = 0
                      \<and> packetBuffer d' = ?buf \<and> uart_tx w' = uart_tx w @ [str_OK])"
  proof
    assume "eventId \<noteq> EVENT_DISPLAY \<or> 0 \<in> set (drop 3 ?buf)"
    then have "?buf ! 2 \<noteq> EVENT_DISPLAY \<or> 0 \<in> set (drop 3 ?buf)"
      by (simp only: b2)
    from valid_frame_returns [OF fib cok this, of w] obtain w'
      where w': "ProcessReceivedPacket ?buf w = Inr w'" by blast
    with c7 have tx: "uart_tx w' = uart_tx w @ [str_OK]" by blast
    let ?d' = "d\<lparr>packetBuffer := ?buf, packetIndex := 0, packetState := 0,
                  packetLength := ?buf ! 1\<rparr>"
    have "receive_bytes ?packet (d, w) = Inr (?d', w')"
      by (simp only: c3 w' sum.case)
    moreover have "packetState ?d' = 0" "packetBuffer ?d' = ?buf" by simp_all
    ultimately show "\<exists>d' w'. receive_bytes ?packet (d, w) = Inr (d', w') \<and> packetState d' = 0
                      \<and> packetBuffer d' = ?buf \<and> uart_tx w' = uart_tx w @ [str_OK]"
      using tx by blast
  qed
  have c9: "eventId = EVENT_DISPLAY \<and> 0 \<notin> set (drop 3 ?buf) \<longrightarrow>
               (\<exists>w2. receive_bytes ?packet (d, w) = Inl (StringOverrun w2)
                    \<and> uart_tx w2 = uart_tx w @ [str_OK]
                    \<and> tim3_compare w2 = tim3_compare w \<and> oled w2 = oled w)"
  proof
    assume a: "eventId = EVENT_DISPLAY \<and> 0 \<notin> set (drop 3 ?buf)"
    with b2 have "?buf ! 2 = EVENT_DISPLAY" by blast
    from valid_frame_overrun [OF fib cok this, of w] a
    have "ProcessReceivedPacket ?buf w = Inl (StringOverrun (reply str_OK w))" by blast
    then have "receive_bytes ?packet (d, w) = Inl (StringOverrun (reply str_OK w))"
      by (simp only: c3 sum.case)
    then show "\<exists>w2. receive_bytes ?packet (d, w) = Inl (StringOverrun w2)
                    \<and> uart_tx w2 = uart_tx w @ [str_OK]
                    \<and> tim3_compare w2 = tim3_compare w \<and> oled w2 = oled w"
      by (intro exI [of _ "reply str_OK w"]) (simp only: reply_effect simp_thms)
  qed
  show ?thesis
    using sp c1 d1(2) c2 c3 fib cok c4 b2 c5 c6 c7 c8 c9
    by (intro exI [of _ ?packet] exI [of _ d1] exI [of _ ?buf] conjI)
qed

theorem round_trip_witness:
  "length [0x52, 0x65, 0x61, 0x64, 0x79 :: byte] + 4 \<le> BUFFER_SIZE
   \<and> packetState decoder_init = 0
   \<and> length (packetBuffer decoder_init) = BUFFER_SIZE
   \<and> (\<exists>packet d' w'.
          SendPacket EVENT_DISPLAY [0x52, 0x65, 0x61, 0x64, 0x79] 5 = Inr packet
        \<and> receive_bytes packet (decoder_init, world_init) = Inr (d', w')
        \<and> packetState d' = 0 \<and> checksum_ok (packetBuffer d')
        \<and> packetBuffer d' ! 2 = EVENT_DISPLAY
        \<and> take (length [0x52, 0x65, 0x61, 0x64, 0x79 :: byte]) (drop 3 (packetBuffer d'))
            = [0x52, 0x65, 0x61, 0x64, 0x79]
        \<and> uart_tx w' = [str_OK])"
proof -
  let ?payload = "[0x52, 0x65, 0x61, 0x64, 0x79 :: byte]"
  have h1: "length ?payload + 4 \<le> BUFFER_SIZE"
    by (simp add: BUFFER_SIZE_def)
  have h2: "packetState decoder_init = 0"
    by (simp add: decoder_init_def)
  have h3: "length (packetBuffer decoder_init) = BUFFER_SIZE"
    by (simp add: decoder_init_def)
  have tx: "uart_tx world_init = []"
    by (simp add: world_init_def)
  have five: "(of_nat (length ?payload) :: byte) = 5" by simp
  from round_trip [OF h1 h2 h3, of EVENT_DISPLAY world_init] obtain packet buf
    where r: "SendPacket EVENT_DISPLAY ?payload (of_nat (length ?payload)) = Inr packet"
      "buf = packet @ drop (length packet) (packetBuffer decoder_init)"
      "checksum_ok buf" "buf ! 2 = EVENT_DISPLAY"
      "take (length ?payload) (drop 3 buf) = ?payload"
      "EVENT_DISPLAY \<noteq> EVENT_DISPLAY \<or> 0 \<in> set (drop 3 buf) \<longrightarrow>
         (\<exists>d' w'. receive_bytes packet (decoder_init, world_init) = Inr (d', w')
             \<and> packetState d' = 0 \<and> packetBuffer d' = buf
             \<and> uart_tx w' = uart_tx world_init @ [str_OK])"
    by blast
  from r(1) have pk: "packet = [0xAA, 0x06, 0x01, 0x52, 0x65, 0x61, 0x64, 0x79, 0x6B]"
    by (simp only: five SendPacket_Ready sum.inject)
  have "drop 3 buf = [0x52, 0x65, 0x61, 0x64, 0x79, 0x6B] @ replicate 23 0"
    by (simp add: r(2) pk decoder_init_def BUFFER_SIZE_def)
  then have "0 \<in> set (drop 3 buf)" by simp
  with r(6) obtain d' w'
    where e: "receive_bytes packet (decoder_init, world_init) = Inr (d', w')"
      "packetState d' = 0" "packetBuffer d' = buf" "uart_tx w' = uart_tx world_init @ [str_OK]"
    by blast
  from r(1) have "SendPacket EVENT_DISPLAY ?payload 5 = Inr packet" by (simp only: five)
  with e r(3,4,5) h1 h2 h3 tx show ?thesis by auto
qed

text \<open>
  Claim C10. The stream \<open>AA 00 b\<close> arriving in the idle state: after \<open>AA 00\<close> the machine
  is in state 2 and has sent nothing; the single byte \<open>b\<close> completes the frame. The
  dispatcher reads \<open>b\<close> both as the event id \<open>buffer[2]\<close> and as the received checksum
  \<open>buffer[2 + 0]\<close>, the computed checksum of the empty span is 0, and so the reply is
  \<open>"OK\n"\<close> exactly when \<open>b = 0\<close> and \<open>"ERR\n"\<close> otherwise; neither the compare register
  nor the display is written.
\<close>

theorem zero_length_frame:
  assumes idle: "packetState d = 0" and size: "length (packetBuffer d) = BUFFER_SIZE"
  shows "\<exists>d1 d' w'.
           receive_bytes [PACKET_START, 0] (d, w) = Inr (d1, w) \<and> packetState d1 = 2
         \<and> receive_bytes [PACKET_START, 0, b] (d, w) = Inr (d', w') \<and> packetState d' = 0
         \<and> packetBuffer d' ! 2 = b
         \<and> packetBuffer d' ! (2 + unat (packetBuffer d' ! 1)) = b
         \<and> CalculateCRC8 (drop 2 (packetBuffer d')) (packetBuffer d' ! 1) = 0
         \<and> uart_tx w' = uart_tx w @ [if b = 0 then str_OK else str_ERR]
         \<and> tim3_compare w' = tim3_compare w \<and> oled w' = oled w"
proof -
  let ?buf = "PACKET_START # 0 # b # drop 3 (packetBuffer d)"
  have lb: "length [b] = Suc (unat (0::byte))" by simp
  have l3: "unat (0::byte) + 3 \<le> BUFFER_SIZE" by (simp add: BUFFER_SIZE_def)
  have fib: "frame_in_buffer ?buf"
    using size by (simp add: frame_in_buffer_def BUFFER_SIZE_def)
  have cok: "checksum_ok ?buf = (b = 0)"
    by (auto simp add: checksum_ok_def CalculateCRC8_def)
  let ?w' = "reply (if b = 0 then str_OK else str_ERR) w"
  have prp: "ProcessReceivedPacket ?buf w = Inr ?w'"
  proof (cases "b = 0")
    case True
    with cok have "checksum_ok ?buf" by blast
    from ProcessReceivedPacket_valid [OF fib this, of w] True show ?thesis
      by (simp add: handle_event_def EVENT_DISPLAY_def EVENT_SERVO_def EVENT_LP_STATUS_def
            EVENT_PARK_FULL_def)
  next
    case False
    with cok have "\<not> checksum_ok ?buf" by blast
    from ProcessReceivedPacket_invalid [OF fib this, of w] False show ?thesis
      by simp
  qed
  from receive_frame(1) [OF idle size lb l3, of w] obtain d1
    where d1: "receive_bytes [PACKET_START, 0] (d, w) = Inr (d1, w)" "packetState d1 = 2"
    by auto
  let ?d' = "d\<lparr>packetBuffer := ?buf, packetIndex := 0, packetState := 0, packetLength := 0\<rparr>"
  have whole: "receive_bytes [PACKET_START, 0, b] (d, w) = Inr (?d', ?w')"
    using receive_frame(2) [OF idle size lb l3, of w] by (simp add: prp)
  have "packetBuffer ?d' ! 2 = b" by simp
  moreover have "packetBuffer ?d' ! (2 + unat (packetBuffer ?d' ! 1)) = b" by simp
  moreover have "CalculateCRC8 (drop 2 (packetBuffer ?d')) (packetBuffer ?d' ! 1) = 0"
    by (simp add: CalculateCRC8_def)
  moreover have "packetState ?d' = 0" by simp
  moreover have "uart_tx ?w' = uart_tx w @ [if b = 0 then str_OK else str_ERR]"
      "tim3_compare ?w' = tim3_compare w" "oled ?w' = oled w"
    by (simp_all add: reply_effect)
  ultimately show ?thesis
    using d1 whole by (metis (no_types, lifting))
qed

theorem zero_length_frame_witness:
  "packetState decoder_init = 0
   \<and> length (packetBuffer decoder_init) = BUFFER_SIZE
   \<and> (\<exists>d' w'. receive_bytes [PACKET_START, 0, 0] (decoder_init, world_init) = Inr (d', w')
          \<and> packetState d' = 0 \<and> uart_tx w' = [str_OK]
          \<and> tim3_compare w' = [] \<and> oled w' = [])
   \<and> (\<exists>d' w'. receive_bytes [PACKET_START, 0, 7] (decoder_init, world_init) = Inr (d', w')
          \<and> packetState d' = 0 \<and> uart_tx w' = [str_ERR]
          \<and> tim3_compare w' = [] \<and> oled w' = [])"
proof -
  have h2: "packetState decoder_init = 0"
    by (simp add: decoder_init_def)
  have h3: "length (packetBuffer decoder_init) = BUFFER_SIZE"
    by (simp add: decoder_init_def)
  have w: "uart_tx world_init = []" "tim3_compare world_init = []" "oled world_init = []"
    by (simp_all add: world_init_def)
  from zero_length_frame [OF h2 h3, where b = 0 and w = world_init]
    zero_length_frame [OF h2 h3, where b = 7 and w = world_init]
    h2 h3 w
  show ?thesis by auto
qed

text \<open>
  Claim C2 asks for a guard on the length byte. The callback has none: after
  \<open>AA 1E\<close> (declared length 30, a frame of 33 bytes for a buffer of 32) the machine is in
  state 2, not idle; a start byte arriving next is stored as data; after 30 further bytes
  the index is 32, and the next byte is written to \<open>packetBuffer[32]\<close>, outside the array.
\<close>

theorem no_overflow_guard:
  "receive_bytes [PACKET_START, 0x1E] (decoder_init, world_init)
     = Inr (\<lparr>packetBuffer = [PACKET_START, 0x1E] @ replicate 30 0, packetIndex = 2,
             packetState = 2, packetLength = 0x1E\<rparr>, world_init)
   \<and> receive_bytes [PACKET_START, 0x1E, PACKET_START] (decoder_init, world_init)
     = Inr (\<lparr>packetBuffer = [PACKET_START, 0x1E, PACKET_START] @ replicate 29 0,
             packetIndex = 3, packetState = 2, packetLength = 0x1E\<rparr>, world_init)
   \<and> receive_bytes ([PACKET_START, 0x1E] @ replicate 30 0) (decoder_init, world_init)
     = Inr (\<lparr>packetBuffer = [PACKET_START, 0x1E] @ replicate 30 0, packetIndex = 32,
             packetState = 2, packetLength = 0x1E\<rparr>, world_init)
   \<and> receive_bytes ([PACKET_START, 0x1E] @ replicate 31 0) (decoder_init, world_init)
     = Inl WriteOverrun"
  by code_simp

text \<open>
  Claim C9. In state 1 (reading the length) and state 2 (reading the rest) the callback
  does the same with every received byte \<open>rx\<close>, the start marker 0xAA included: the
  byte is stored at \<open>packetIndex\<close> and the index advances; in state 1 it also becomes
  \<open>packetLength\<close>, in state 2 the frame is dispatched when the index has reached
  \<open>packetLength + 3\<close>. No branch looks at the value of the byte. For the start marker
  in particular, the machine never goes back to state 1 (frame assembly is not
  restarted) and the marker is in the buffer at the position of the index.
\<close>

theorem start_marker_consumed_positionally:
  assumes st: "packetState d = 1 \<or> packetState d = 2"
    and idx: "unat (packetIndex d) < length (packetBuffer d)"
  shows "(\<forall>rx. HAL_UART_RxCpltCallback USART2 rx (d, w) =
            (let d1 = d\<lparr>packetBuffer := (packetBuffer d)[unat (packetIndex d) := rx],
                          packetIndex := packetIndex d + 1\<rparr>
             in if packetState d = 1 then Inr (d1\<lparr>packetState := 2, packetLength := rx\<rparr>, w)
                else if unat (packetLength d) + 3 \<le> unat (packetIndex d1) then
                  (case ProcessReceivedPacket (packetBuffer d1) w of
                     Inl f \<Rightarrow> Inl f
                   | Inr w1 \<Rightarrow> Inr (d1\<lparr>packetState := 0, packetIndex := 0\<rparr>, w1))
                else Inr (d1, w)))
       \<and> (\<forall>d' w'. HAL_UART_RxCpltCallback USART2 PACKET_START (d, w) = Inr (d', w') \<longrightarrow>
              packetState d' \<noteq> 1
            \<and> packetBuffer d' = (packetBuffer d)[unat (packetIndex d) := PACKET_START])"
proof (intro conjI allI impI)
  fix rx
  show "HAL_UART_RxCpltCallback USART2 rx (d, w) =
            (let d1 = d\<lparr>packetBuffer := (packetBuffer d)[unat (packetIndex d) := rx],
                          packetIndex := packetIndex d + 1\<rparr>
             in if packetState d = 1 then Inr (d1\<lparr>packetState := 2, packetLength := rx\<rparr>, w)
                else if unat (packetLength d) + 3 \<le> unat (packetIndex d1) then
                  (case ProcessReceivedPacket (packetBuffer d1) w of
                     Inl f \<Rightarrow> Inl f
                   | Inr w1 \<Rightarrow> Inr (d1\<lparr>packetState := 0, packetIndex := 0\<rparr>, w1))
                else Inr (d1, w))"
    using st
  proof
    assume "packetState d = 1"
    then show ?thesis using idx by (simp add: callback_length Let_def)
  next
    assume "packetState d = 2"
    then show ?thesis using idx by (simp add: callback_data Let_def)
  qed
next
  fix d' w'
  assume r: "HAL_UART_RxCpltCallback USART2 PACKET_START (d, w) = Inr (d', w')"
  from st show "packetState d' \<noteq> 1"
  proof
    assume "packetState d = 1"
    with r idx show ?thesis by (auto simp add: callback_length)
  next
    assume "packetState d = 2"
    with r idx show ?thesis by (auto simp add: callback_data Let_def split: if_splits sum.splits)
  qed
  from st show "packetBuffer d' = (packetBuffer d)[unat (packetIndex d) := PACKET_START]"
  proof
    assume "packetState d = 1"
    with r idx show ?thesis by (auto simp add: callback_length)
  next
    assume "packetState d = 2"
    with r idx show ?thesis by (auto simp add: callback_data Let_def split: if_splits sum.splits)
  qed
qed

theorem start_marker_consumed_positionally_witness:
  "(packetState \<lparr>packetBuffer = [PACKET_START, 5] @ replicate 30 0, packetIndex = 2,
                 packetState = 2, packetLength = 5\<rparr> = 1
    \<or> packetState \<lparr>packetBuffer = [PACKET_START, 5] @ replicate 30 0, packetIndex = 2,
                 packetState = 2, packetLength = 5\<rparr> = 2)
   \<and> unat (packetIndex \<lparr>packetBuffer = [PACKET_START, 5] @ replicate 30 0, packetIndex = 2,
                 packetState = 2, packetLength = 5\<rparr>)
       < length (packetBuffer \<lparr>packetBuffer = [PACKET_START, 5] @ replicate 30 0,
                 packetIndex = 2, packetState = 2, packetLength = 5\<rparr>)
   \<and> HAL_UART_RxCpltCallback USART2 PACKET_START
         (\<lparr>packetBuffer = [PACKET_START, 5] @ replicate 30 0, packetIndex = 2,
           packetState = 2, packetLength = 5\<rparr>, world_init)
       = Inr (\<lparr>packetBuffer = [PACKET_START, 5, PACKET_START] @ replicate 29 0,
               packetIndex = 3, packetState = 2, packetLength = 5\<rparr>, world_init)"
proof -
  let ?d = "\<lparr>packetBuffer = [PACKET_START, 5] @ replicate 30 0, packetIndex = 2,
                 packetState = 2, packetLength = 5\<rparr>"
  have h1: "packetState ?d = 1 \<or> packetState ?d = 2" by simp
  have h2: "unat (packetIndex ?d) < length (packetBuffer ?d)" by simp
  have r: "replicate 30 (0::byte) = 0 # replicate 29 0" by (simp add: numeral_eq_Suc)
  from start_marker_consumed_positionally [OF h1 h2, of world_init]
  have "HAL_UART_RxCpltCallback USART2 PACKET_START (?d, world_init) =
            (let d1 = ?d\<lparr>packetBuffer := (packetBuffer ?d)[unat (packetIndex ?d) := PACKET_START],
                          packetIndex := packetIndex ?d + 1\<rparr>
             in if packetState ?d = 1 then Inr (d1\<lparr>packetState := 2, packetLength := PACKET_START\<rparr>, world_init)
                else if unat (packetLength ?d) + 3 \<le> unat (packetIndex d1) then
                  (case ProcessReceivedPacket (packetBuffer d1) world_init of
                     Inl f \<Rightarrow> Inl f
                   | Inr w1 \<Rightarrow> Inr (d1\<lparr>packetState := 0, packetIndex := 0\<rparr>, w1))
                else Inr (d1, world_init))"
    by blast
  then show ?thesis
    using h1 h2 by (simp add: r)
qed

section \<open>What the checksum covers\<close>

text \<open>
  Claim C3 says that the checksum byte is computed over the length field, the event id
  and the payload. It is not: for the car-detect report with payload 01 the encoder
  sends \<open>AA 02 03 01 38\<close>, and 0x38 is not the checksum of \<open>02 03 01\<close>, which is 0xEE;
  a frame that carries 0xEE instead is answered with \<open>"ERR\n"\<close>.
\<close>

theorem checksum_over_length_field_counterexample:
  "SendPacket EVENT_CAR_DETECT [1] 1 = Inr [0xAA, 0x02, 0x03, 0x01, 0x38]
   \<and> last [0xAA, 0x02, 0x03, 0x01, 0x38] \<noteq> CalculateCRC8 [0x02, 0x03, 0x01] 3
   \<and> CalculateCRC8 [0x02, 0x03, 0x01] 3 = 0xEE
   \<and> ProcessReceivedPacket ([0xAA, 0x02, 0x03, 0x01, 0xEE] @ replicate 27 0) world_init
       = Inr (reply str_ERR world_init)"
  by code_simp

lemma str_OK_neq_ERR: "str_OK \<noteq> str_ERR"
  by (simp add: str_OK_bytes str_ERR_bytes)

text \<open>
  Claim C3 as amended. The checksum byte is computed over the event id and the payload,
  the \<open>length\<close> bytes that start at the event id field; the length field is not
  covered. The encoder appends the reference CRC-8 of \<open>eventId # payload\<close> (the bytes
  \<open>packet[2 .. 2 + length - 1]\<close>). The dispatcher judges a frame by comparing the byte
  \<open>buffer[2 + length]\<close> with the reference CRC-8 of the \<open>length\<close> bytes from
  \<open>buffer[2]\<close> on: it answers \<open>"ERR\n"\<close> exactly when they differ, and when they are
  equal it transmits \<open>"OK\n"\<close> and enters the switch on the event id, so that a
  dispatcher that returns has answered \<open>"OK\n"\<close> exactly when they are equal.
\<close>

theorem checksum_coverage:
  assumes fits: "length payload + 4 \<le> BUFFER_SIZE"
    and fib: "frame_in_buffer buffer"
  shows "(\<exists>packet. SendPacket eventId payload (of_nat (length payload)) = Inr packet
            \<and> packet ! 1 = of_nat (length payload) + 1
            \<and> take (unat (packet ! 1)) (drop 2 packet) = eventId # payload
            \<and> last packet = crc8_reference (eventId # payload))
       \<and> ((\<exists>w'. ProcessReceivedPacket buffer w = Inr w'
                \<and> uart_tx w' = uart_tx w @ [str_ERR])
            = (buffer ! (2 + unat (buffer ! 1))
                 \<noteq> crc8_reference (take (unat (buffer ! 1)) (drop 2 buffer))))
       \<and> (\<forall>w'. ProcessReceivedPacket buffer w = Inr w' \<longrightarrow>
              (uart_tx w' = uart_tx w @ [str_OK])
                = (buffer ! (2 + unat (buffer ! 1))
                     = crc8_reference (take (unat (buffer ! 1)) (drop 2 buffer))))
       \<and> (buffer ! (2 + unat (buffer ! 1))
             = crc8_reference (take (unat (buffer ! 1)) (drop 2 buffer)) \<longrightarrow>
           (\<exists>w2. uart_tx w2 = uart_tx w @ [str_OK]
               \<and> ProcessReceivedPacket buffer w
                   = handle_event (buffer ! 2) (drop 3 buffer) w2))"
proof (intro conjI)
  from fits have n: "length payload < 255" by (simp add: BUFFER_SIZE_def)
  then have u: "unat (of_nat (length payload) + 1 :: byte) = Suc (length payload)"
    by (simp add: unat_byte_Suc unat_byte_of_nat)
  show "\<exists>packet. SendPacket eventId payload (of_nat (length payload)) = Inr packet
            \<and> packet ! 1 = of_nat (length payload) + 1
            \<and> take (unat (packet ! 1)) (drop 2 packet) = eventId # payload
            \<and> last packet = crc8_reference (eventId # payload)"
    by (simp add: SendPacket_ok [OF fits] u crc_loop_reference [symmetric])
next
  let ?match = "buffer ! (2 + unat (buffer ! 1))
                  = crc8_reference (take (unat (buffer ! 1)) (drop 2 buffer))"
  have ck: "checksum_ok buffer = ?match"
    by (simp add: checksum_ok_def CalculateCRC8_def crc_loop_reference)
  have neq: "uart_tx w @ [str_OK] \<noteq> uart_tx w @ [str_ERR]"
    by (simp add: str_OK_neq_ERR)
  show "(\<exists>w'. ProcessReceivedPacket buffer w = Inr w' \<and> uart_tx w' = uart_tx w @ [str_ERR])
          = (\<not> ?match)"
  proof (cases "checksum_ok buffer")
    case True
    have "\<not> (\<exists>w'. ProcessReceivedPacket buffer w = Inr w'
                 \<and> uart_tx w' = uart_tx w @ [str_ERR])"
      using valid_frame_OK [OF fib True, of w] neq by auto
    with True ck show ?thesis by simp
  next
    case False
    have "\<exists>w'. ProcessReceivedPacket buffer w = Inr w' \<and> uart_tx w' = uart_tx w @ [str_ERR]"
      by (simp add: ProcessReceivedPacket_invalid [OF fib False] reply_effect)
    with False ck show ?thesis by simp
  qed
  show "\<forall>w'. ProcessReceivedPacket buffer w = Inr w' \<longrightarrow>
              (uart_tx w' = uart_tx w @ [str_OK]) = ?match"
  proof (cases "checksum_ok buffer")
    case True
    with valid_frame_OK [OF fib True, of w] ck show ?thesis by auto
  next
    case False
    with ProcessReceivedPacket_invalid [OF fib False, of w] ck show ?thesis
      by (simp add: reply_effect str_OK_neq_ERR [symmetric])
  qed
  show "?match \<longrightarrow>
           (\<exists>w2. uart_tx w2 = uart_tx w @ [str_OK]
               \<and> ProcessReceivedPacket buffer w
                   = handle_event (buffer ! 2) (drop 3 buffer) w2)"
  proof
    assume ?match
    with ck have "checksum_ok buffer" by simp
    from ProcessReceivedPacket_valid [OF fib this, of w]
    show "\<exists>w2. uart_tx w2 = uart_tx w @ [str_OK]
               \<and> ProcessReceivedPacket buffer w
                   = handle_event (buffer ! 2) (drop 3 buffer) w2"
      by (intro exI [of _ "reply str_OK w"]) (simp add: reply_effect)
  qed
qed

theorem checksum_coverage_witness:
  "length [1 :: byte] + 4 \<le> BUFFER_SIZE
   \<and> frame_in_buffer ([0xAA, 0x02, 0x03, 0x01, 0x38] @ replicate 27 0)
   \<and> (\<exists>packet. SendPacket EVENT_CAR_DETECT [1] 1 = Inr packet
            \<and> packet ! 1 = 2
            \<and> last packet = crc8_reference [EVENT_CAR_DETECT, 1])
   \<and> (\<exists>w'. ProcessReceivedPacket ([0xAA, 0x02, 0x03, 0x01, 0x38] @ replicate 27 0) world_init
              = Inr w'
            \<and> uart_tx w' = [str_OK])"
proof -
  let ?buffer = "[0xAA, 0x02, 0x03, 0x01, 0x38] @ replicate 27 (0::byte)"
  have h1: "length [1 :: byte] + 4 \<le> BUFFER_SIZE" by (simp add: BUFFER_SIZE_def)
  have h2: "frame_in_buffer ?buffer" by code_simp
  have c: "?buffer ! (2 + unat (?buffer ! 1))
             = crc8_reference (take (unat (?buffer ! 1)) (drop 2 ?buffer))"
    by code_simp
  have r: "ProcessReceivedPacket ?buffer world_init = Inr (reply str_OK world_init)"
    by code_simp
  have w: "uart_tx world_init = []" by (simp add: world_init_def)
  from checksum_coverage [OF h1 h2, of EVENT_CAR_DETECT world_init]
  have enc: "\<exists>packet. SendPacket EVENT_CAR_DETECT [1] (of_nat (length [1 :: byte])) = Inr packet
            \<and> packet ! 1 = of_nat (length [1 :: byte]) + 1
            \<and> take (unat (packet ! 1)) (drop 2 packet) = [EVENT_CAR_DETECT, 1]
            \<and> last packet = crc8_reference [EVENT_CAR_DETECT, 1]"
    and dec: "\<forall>w'. ProcessReceivedPacket ?buffer world_init = Inr w' \<longrightarrow>
              (uart_tx w' = uart_tx world_init @ [str_OK])
                = (?buffer ! (2 + unat (?buffer ! 1))
                     = crc8_reference (take (unat (?buffer ! 1)) (drop 2 ?buffer)))"
    by blast+
  from dec r c have "uart_tx (reply str_OK world_init) = uart_tx world_init @ [str_OK]"
    by blast
  with r have "\<exists>w'. ProcessReceivedPacket ?buffer world_init = Inr w' \<and> uart_tx w' = [str_OK]"
    by (simp add: w)
  moreover from enc have "\<exists>packet. SendPacket EVENT_CAR_DETECT [1] 1 = Inr packet
            \<and> packet ! 1 = 2 \<and> last packet = crc8_reference [EVENT_CAR_DETECT, 1]"
    by auto
  ultimately show ?thesis using h1 h2 by blast
qed

section \<open>The presence monitor\<close>

lemma send_report_ok: "send_report r v = Inr [(r, car_detect_packet v)]"
  by (simp add: send_report_def SendPacket_def CalculateCRC8_def car_detect_packet_def
        BUFFER_SIZE_def)

lemma change_reports_append [simp]:
  "change_reports (o1 @ o2) = change_reports o1 @ change_reports o2"
  by (simp add: change_reports_def)

lemma change_reports_simps [simp]:
  "change_reports [] = []"
  "change_reports ((ChangeReport, p) # out) = p # change_reports out"
  "change_reports ((PeriodicReport, p) # out) = change_reports out"
  by (simp_all add: change_reports_def)

text \<open>
  One pass of the loop: what it leaves in the debounce variables and whether it sends a
  change report. The combinations of the tests are evaluated one by one.
\<close>

lemma pass_effect:
  "\<exists>out s'. main_loop_pass t s = Inr (out, s')
     \<and> lastCarDetected s' = sensor t
     \<and> lastDebounceTime s'
          = (if sensor t \<noteq> lastCarDetected s then tick_stamp t else lastDebounceTime s)
     \<and> (if tick_check t - lastDebounceTime s' > DEBOUNCE_TIME \<and> carDetected s \<noteq> sensor t
         then change_reports out = [car_detect_packet (sensor t)] \<and> carDetected s' = sensor t
         else change_reports out = [] \<and> carDetected s' = carDetected s)"
  by (cases "sensor t \<noteq> lastCarDetected s";
      cases "tick_check t - tick_stamp t > DEBOUNCE_TIME";
      cases "tick_check t - lastDebounceTime s > DEBOUNCE_TIME";
      cases "carDetected s \<noteq> sensor t";
      cases "tick_beat t - lastDetectionSendTime s > 1000")
     (simp_all add: main_loop_pass_def Let_def send_report_ok)

lemma no_change_when_toggling:
  "toggles_within DEBOUNCE_TIME (lastCarDetected s) (lastDebounceTime s) ts \<Longrightarrow>
   \<exists>out s'. main_loop ts s = Inr (out, s') \<and> change_reports out = []
            \<and> carDetected s' = carDetected s"
proof (induction ts arbitrary: s)
  case Nil
  then show ?case by simp
next
  case (Cons t ts)
  from pass_effect [of t s] obtain o1 s1 where p: "main_loop_pass t s = Inr (o1, s1)"
    "lastCarDetected s1 = sensor t"
    "lastDebounceTime s1
       = (if sensor t \<noteq> lastCarDetected s then tick_stamp t else lastDebounceTime s)"
    "if tick_check t - lastDebounceTime s1 > DEBOUNCE_TIME \<and> carDetected s \<noteq> sensor t
         then change_reports o1 = [car_detect_packet (sensor t)] \<and> carDetected s1 = sensor t
         else change_reports o1 = [] \<and> carDetected s1 = carDetected s"
    by blast
  have "tick_check t - lastDebounceTime s1 \<le> DEBOUNCE_TIME"
    using Cons.prems by (simp add: p(3) split: if_splits)
  then have quiet: "\<not> tick_check t - lastDebounceTime s1 > DEBOUNCE_TIME"
    by simp
  with p(4) have o1: "change_reports o1 = []" "carDetected s1 = carDetected s" by simp_all
  have "toggles_within DEBOUNCE_TIME (lastCarDetected s1) (lastDebounceTime s1) ts"
    using Cons.prems by (simp add: p(2,3) split: if_splits)
  from Cons.IH [OF this] obtain o2 s2 where r: "main_loop ts s1 = Inr (o2, s2)"
    "change_reports o2 = []" "carDetected s2 = carDetected s1"
    by blast
  show ?case by (simp add: p(1) r o1)
qed

lemma no_change_when_settled:
  "carDetected s = v \<Longrightarrow> \<forall>t\<in>set ts. sensor t = v \<Longrightarrow>
   \<exists>out s'. main_loop ts s = Inr (out, s') \<and> change_reports out = [] \<and> carDetected s' = v"
proof (induction ts arbitrary: s)
  case Nil
  then show ?case by simp
next
  case (Cons t ts)
  from Cons.prems have st: "sensor t = v" and rest: "\<forall>t\<in>set ts. sensor t = v"
    by simp_all
  from pass_effect [of t s] obtain o1 s1 where p0: "main_loop_pass t s = Inr (o1, s1)"
    "if tick_check t - lastDebounceTime s1 > DEBOUNCE_TIME \<and> carDetected s \<noteq> sensor t
         then change_reports o1 = [car_detect_packet (sensor t)] \<and> carDetected s1 = sensor t
         else change_reports o1 = [] \<and> carDetected s1 = carDetected s"
    by blast
  from p0(2) st Cons.prems(1) have p: "change_reports o1 = []" "carDetected s1 = v"
    by simp_all
  from Cons.IH [OF p(2) rest] obtain o2 s2 where r: "main_loop ts s1 = Inr (o2, s2)"
    "change_reports o2 = []" "carDetected s2 = v"
    by blast
  show ?case by (simp add: p0(1) p r)
qed

lemma one_change_when_held:
  "lastCarDetected s = v \<Longrightarrow> carDetected s \<noteq> v \<Longrightarrow> \<forall>t\<in>set ts. sensor t = v \<Longrightarrow>
   \<exists>t\<in>set ts. tick_check t - lastDebounceTime s > DEBOUNCE_TIME \<Longrightarrow>
   \<exists>out s'. main_loop ts s = Inr (out, s') \<and> change_reports out = [car_detect_packet v]
            \<and> carDetected s' = v"
proof (induction ts arbitrary: s)
  case Nil
  then show ?case by simp
next
  case (Cons t ts)
  from Cons.prems have st: "sensor t = v" and rest: "\<forall>t\<in>set ts. sensor t = v"
    by simp_all
  from pass_effect [of t s] obtain o1 s1
    where p0: "main_loop_pass t s = Inr (o1, s1)"
      "lastCarDetected s1 = sensor t"
      "lastDebounceTime s1
         = (if sensor t \<noteq> lastCarDetected s then tick_stamp t else lastDebounceTime s)"
      "if tick_check t - lastDebounceTime s1 > DEBOUNCE_TIME \<and> carDetected s \<noteq> sensor t
         then change_reports o1 = [car_detect_packet (sensor t)] \<and> carDetected s1 = sensor t
         else change_reports o1 = [] \<and> carDetected s1 = carDetected s"
    by blast
  from p0 st Cons.prems(1) have p: "main_loop_pass t s = Inr (o1, s1)"
      "lastCarDetected s1 = v" "lastDebounceTime s1 = lastDebounceTime s"
      "if tick_check t - lastDebounceTime s > DEBOUNCE_TIME \<and> carDetected s \<noteq> v
         then change_reports o1 = [car_detect_packet v] \<and> carDetected s1 = v
         else change_reports o1 = [] \<and> carDetected s1 = carDetected s"
    by simp_all
  show ?case
  proof (cases "tick_check t - lastDebounceTime s > DEBOUNCE_TIME")
    case True
    with p(4) Cons.prems(2)
    have o1: "change_reports o1 = [car_detect_packet v]" "carDetected s1 = v"
      by simp_all
    from no_change_when_settled [OF o1(2) rest]
    obtain o2 s2 where r: "main_loop ts s1 = Inr (o2, s2)"
      "change_reports o2 = []" "carDetected s2 = v"
      by blast
    show ?thesis by (simp add: p(1) r o1)
  next
    case False
    with p(4) have o1: "change_reports o1 = []" "carDetected s1 = carDetected s"
      by simp_all
    have "\<exists>t\<in>set ts. tick_check t - lastDebounceTime s1 > DEBOUNCE_TIME"
      using Cons.prems(4) False by (simp add: p(3))
    moreover have "carDetected s1 \<noteq> v"
      using Cons.prems(2) by (simp add: o1(2))
    ultimately obtain o2 s2 where r: "main_loop ts s1 = Inr (o2, s2)"
      "change_reports o2 = [car_detect_packet v]" "carDetected s2 = v"
      using Cons.IH [OF p(2) _ rest] by blast
    show ?thesis by (simp add: p(1) r o1)
  qed
qed

text \<open>
  Claim C6 says that a single transition held for at least the debounce interval gives
  one change report. The loop tests \<open>(HAL_GetTick() - lastDebounceTime) > DEBOUNCE_TIME\<close>,
  so a reading that changes from 0 to 1 at tick 100 and is sampled again at tick 150,
  exactly 50 ticks later, gives none.
\<close>

theorem debounce_boundary_counterexample:
  "main_loop [at_tick 1 100, at_tick 1 150] presence_init
     = Inr ([], \<lparr>carDetected = 0, lastCarDetected = 1, lastDebounceTime = 100,
                 lastDetectionSendTime = 0\<rparr>)"
  by code_simp

text \<open>
  Claim C6 as amended. Over a sequence of passes in which the sensor reading is never
  seen unchanged for more than \<open>DEBOUNCE_TIME\<close> (50 ticks), which covers a reading that
  toggles at intervals shorter than 50 ticks and also a reading held for exactly 50
  ticks, the loop sends no change report and \<open>carDetected\<close> keeps its value. For a
  single transition (the monitor settled on another value, then every pass reads \<open>v\<close>)
  that is held for more than \<open>DEBOUNCE_TIME\<close>, that is, with a debounce test made
  strictly more than 50 ticks after the time stamp of the first pass that read \<open>v\<close>,
  the loop sends exactly one change report, the car-detect packet for \<open>v\<close>. The two
  hypotheses meet at 50: a loop that accepted a reading after exactly 50 ticks would
  break the first part.
\<close>

theorem debounce:
  assumes fast: "toggles_within DEBOUNCE_TIME (lastCarDetected s) (lastDebounceTime s) ts"
    and settled: "lastCarDetected s0 = carDetected s0"
    and trans: "\<forall>t\<in>set (t0 # rest). sensor t = v" and differs: "v \<noteq> carDetected s0"
    and held: "\<exists>t\<in>set (t0 # rest). tick_check t - tick_stamp t0 > DEBOUNCE_TIME"
  shows "(\<exists>out s'. main_loop ts s = Inr (out, s') \<and> change_reports out = []
            \<and> carDetected s' = carDetected s)
       \<and> (\<exists>out s'. main_loop (t0 # rest) s0 = Inr (out, s')
            \<and> change_reports out = [car_detect_packet v] \<and> carDetected s' = v)"
proof
  show "\<exists>out s'. main_loop ts s = Inr (out, s') \<and> change_reports out = []
            \<and> carDetected s' = carDetected s"
    using fast by (rule no_change_when_toggling)
next
  from trans have st: "sensor t0 = v" and rest: "\<forall>t\<in>set rest. sensor t = v"
    by simp_all
  from pass_effect [of t0 s0] obtain o1 s1
    where p0: "main_loop_pass t0 s0 = Inr (o1, s1)"
      "lastCarDetected s1 = sensor t0"
      "lastDebounceTime s1
         = (if sensor t0 \<noteq> lastCarDetected s0 then tick_stamp t0 else lastDebounceTime s0)"
      "if tick_check t0 - lastDebounceTime s1 > DEBOUNCE_TIME \<and> carDetected s0 \<noteq> sensor t0
         then change_reports o1 = [car_detect_packet (sensor t0)] \<and> carDetected s1 = sensor t0
         else change_reports o1 = [] \<and> carDetected s1 = carDetected s0"
    by blast
  from st settled differs have tog: "sensor t0 \<noteq> lastCarDetected s0" by simp
  with p0(3) have ldt: "lastDebounceTime s1 = tick_stamp t0" by simp
  have lc: "lastCarDetected s1 = v" using p0(2) st by simp
  show "\<exists>out s'. main_loop (t0 # rest) s0 = Inr (out, s')
            \<and> change_reports out = [car_detect_packet v] \<and> carDetected s' = v"
  proof (cases "tick_check t0 - tick_stamp t0 > DEBOUNCE_TIME")
    case True
    with p0(4) differs st have o1: "change_reports o1 = [car_detect_packet v]" "carDetected s1 = v"
      by (simp_all add: ldt)
    from no_change_when_settled [OF o1(2) rest]
    obtain o2 s2 where r: "main_loop rest s1 = Inr (o2, s2)"
      "change_reports o2 = []" "carDetected s2 = v"
      by blast
    show ?thesis by (simp add: p0(1) r o1)
  next
    case False
    with p0(4) have o1: "change_reports o1 = []" "carDetected s1 = carDetected s0"
      by (simp_all add: ldt)
    have "carDetected s1 \<noteq> v" using differs o1(2) by simp
    moreover have "\<exists>t\<in>set rest. tick_check t - lastDebounceTime s1 > DEBOUNCE_TIME"
      using held False by (simp add: ldt)
    ultimately obtain o2 s2 where r: "main_loop rest s1 = Inr (o2, s2)"
        "change_reports o2 = [car_detect_packet v]" "carDetected s2 = v"
      using one_change_when_held [OF lc _ rest] by blast
    show ?thesis by (simp add: p0(1) r o1)
  qed
qed

theorem debounce_witness:
  "toggles_within DEBOUNCE_TIME (lastCarDetected presence_init) (lastDebounceTime presence_init)
     [at_tick 1 100, at_tick 1 150, at_tick 0 160, at_tick 0 189, at_tick 1 200]
   \<and> lastCarDetected presence_init = carDetected presence_init
   \<and> 1 \<noteq> carDetected presence_init
   \<and> tick_check (at_tick 1 151) - tick_stamp (at_tick 1 100) > DEBOUNCE_TIME
   \<and> (\<exists>out s'. main_loop [at_tick 1 100, at_tick 1 150, at_tick 0 160, at_tick 0 189,
                            at_tick 1 200] presence_init = Inr (out, s')
          \<and> change_reports out = [] \<and> carDetected s' = carDetected presence_init)
   \<and> (\<exists>out s'. main_loop [at_tick 1 100, at_tick 1 120, at_tick 1 151, at_tick 1 200]
                   presence_init = Inr (out, s')
          \<and> change_reports out = [car_detect_packet 1] \<and> carDetected s' = 1)"
proof -
  have h1: "toggles_within DEBOUNCE_TIME (lastCarDetected presence_init)
     (lastDebounceTime presence_init)
     [at_tick 1 100, at_tick 1 150, at_tick 0 160, at_tick 0 189, at_tick 1 200]"
    by (simp add: presence_init_def DEBOUNCE_TIME_def at_tick_def)
  have h2: "lastCarDetected presence_init = carDetected presence_init"
    by (simp add: presence_init_def)
  have h3: "\<forall>t\<in>set [at_tick 1 100, at_tick 1 120, at_tick 1 151, at_tick 1 200].
              sensor t = (1::byte)"
    by (simp add: at_tick_def)
  have h4: "(1::byte) \<noteq> carDetected presence_init"
    by (simp add: presence_init_def)
  have h6: "tick_check (at_tick 1 151) - tick_stamp (at_tick 1 100) > DEBOUNCE_TIME"
    by (simp add: DEBOUNCE_TIME_def at_tick_def)
  then have h5: "\<exists>t\<in>set [at_tick 1 100, at_tick 1 120, at_tick 1 151, at_tick 1 200].
          tick_check t - tick_stamp (at_tick 1 100) > DEBOUNCE_TIME"
    by simp
  from debounce [OF h1 h2 h3 h4 h5] h1 h2 h4 h6 show ?thesis
    by blast
qed

end
